theory Spec2Isabelle
  imports Main "HOL-Library.Word" "HOL-Library.Multiset"
begin

section \<open>Status codes (lib/errors.h)\<close>

text \<open>
  \<^verbatim>\<open>typedef unsigned short StatusCode;\<close> with the three codes of errors.h. A status is
  tested in the source as \<^verbatim>\<open>if (res)\<close>, that is, against zero.
\<close>

type_synonym StatusCode = "16 word"

definition STATUS_OK :: StatusCode where
  "STATUS_OK = 0"

definition ERROR_OUT_OF_MEM :: StatusCode where
  "ERROR_OUT_OF_MEM = 10"

definition ERROR_BAD_ARG :: StatusCode where
  "ERROR_BAD_ARG = 20"

section \<open>Option structs (lib/utils.h, DECL_OPTION)\<close>

text \<open>
  The generated struct has the members \<^verbatim>\<open>item\<close>, \<^verbatim>\<open>present\<close> and \<^verbatim>\<open>error\<close>. Both
  constructors use designated initialisers, so every member they do not name is
  zero: \<^verbatim>\<open>opt_T_none\<close> leaves \<^verbatim>\<open>error\<close> at 0 and \<^verbatim>\<open>item\<close> zeroed, \<^verbatim>\<open>opt_T_some\<close>
  leaves \<^verbatim>\<open>error\<close> at 0. The zeroed item of an empty option is \<open>None\<close> here.
\<close>

record 'a opt =
  item :: "'a option"
  present :: bool
  error :: StatusCode

definition opt_none :: "'a opt" where
  "opt_none = \<lparr>item = None, present = False, error = 0\<rparr>"

definition opt_some :: "'a \<Rightarrow> 'a opt" where
  "opt_some arg = \<lparr>item = Some arg, present = True, error = 0\<rparr>"

definition OPT_NONE_ERR :: "StatusCode \<Rightarrow> 'a opt" where
  "OPT_NONE_ERR code = (opt_none :: 'a opt)\<lparr>error := code\<rparr>"

section \<open>Allocation and undefined behaviour\<close>

text \<open>
  \<^verbatim>\<open>malloc\<close> may return NULL at any call. The allocator is a script of the outcomes of
  the coming calls (\<open>True\<close>: a block is returned); once the script is used up every
  call succeeds. \<^verbatim>\<open>free\<close> has no effect that the program can observe and is left out.
\<close>

type_synonym allocator = "bool list"

fun malloc :: "allocator \<Rightarrow> bool \<times> allocator" where
  "malloc [] = (True, [])"
| "malloc (b # bs) = (b, bs)"

text \<open>
  What C leaves undefined is a value of the model, so that no theorem speaks about a
  run that has left the language: a remainder by zero, an access outside the bucket
  array, and the overflow of an \<^verbatim>\<open>int\<close> loop counter that runs up to a \<^verbatim>\<open>long\<close> bound.
\<close>

datatype ub = DivisionByZero | OutOfBounds | SignedOverflow

definition INT_MAX :: int where
  "INT_MAX = 2147483647"

text \<open>
  The operator \<^verbatim>\<open>%\<close> of C99 truncates towards zero: the remainder has the sign of the
  dividend. (\<open>mod\<close> of HOL rounds down instead.)
\<close>

definition c_rem :: "int \<Rightarrow> int \<Rightarrow> int" where
  "c_rem a b = sgn a * (\<bar>a\<bar> mod \<bar>b\<bar>)"

section \<open>Linked list (lib/list.h)\<close>

text \<open>
  A list owns its nodes exclusively, so the chain of nodes that starts at \<^verbatim>\<open>root\<close> is
  the sequence \<open>nodes\<close> of their \<^verbatim>\<open>data\<close> members: \<^verbatim>\<open>root == NULL\<close> is \<open>nodes = []\<close>,
  \<^verbatim>\<open>last\<close> is the final node, and \<^verbatim>\<open>root == last\<close> on a list that is not empty says
  that there is one node. The member \<^verbatim>\<open>length\<close> is kept as the source keeps it, a
  counter of its own.
\<close>

record 'a LinkedList =
  nodes :: "'a list"
  length_ll :: int

definition ll_new :: "'a LinkedList" where
  "ll_new = \<lparr>nodes = [], length_ll = 0\<rparr>"

definition ll_pushb :: "allocator \<Rightarrow> 'a LinkedList \<Rightarrow> 'a \<Rightarrow> StatusCode \<times> 'a LinkedList \<times> allocator" where
  "ll_pushb h list data =
     (case malloc h of
        (False, h') \<Rightarrow> (ERROR_OUT_OF_MEM, list, h')
      | (True, h') \<Rightarrow>
          if nodes list = [] then (STATUS_OK, list\<lparr>nodes := [data], length_ll := 1\<rparr>, h')
          else (STATUS_OK, list\<lparr>nodes := nodes list @ [data], length_ll := length_ll list + 1\<rparr>, h'))"

definition ll_pushf :: "allocator \<Rightarrow> 'a LinkedList \<Rightarrow> 'a \<Rightarrow> StatusCode \<times> 'a LinkedList \<times> allocator" where
  "ll_pushf h list data =
     (case malloc h of
        (False, h') \<Rightarrow> (ERROR_OUT_OF_MEM, list, h')
      | (True, h') \<Rightarrow>
          if nodes list = [] then (STATUS_OK, list\<lparr>nodes := [data], length_ll := 1\<rparr>, h')
          else (STATUS_OK, list\<lparr>nodes := data # nodes list, length_ll := length_ll list + 1\<rparr>, h'))"

definition ll_popf :: "'a LinkedList \<Rightarrow> 'a opt \<times> 'a LinkedList" where
  "ll_popf list =
     (case nodes list of
        [] \<Rightarrow> (opt_none, list)
      | [data] \<Rightarrow> (opt_some data, list\<lparr>nodes := [], length_ll := 0\<rparr>)
      | data # rest \<Rightarrow> (opt_some data, list\<lparr>nodes := rest, length_ll := length_ll list - 1\<rparr>))"

definition ll_popb :: "'a LinkedList \<Rightarrow> 'a opt \<times> 'a LinkedList" where
  "ll_popb list =
     (if nodes list = [] then (opt_none, list)
      else if length (nodes list) = 1
        then (opt_some (hd (nodes list)), list\<lparr>nodes := [], length_ll := 0\<rparr>)
      else (opt_some (last (nodes list)),
            list\<lparr>nodes := butlast (nodes list), length_ll := length_ll list - 1\<rparr>))"

text \<open>
  \<^verbatim>\<open>_ll_remove(list, node, prev)\<close>: a node of the list is named by its position in
  the chain, and \<^verbatim>\<open>prev\<close> is a position or NULL (\<open>None\<close>). \<^verbatim>\<open>prev->next == node\<close>
  says that \<open>prev\<close> is the position just before.
\<close>

definition ll_remove :: "'a LinkedList \<Rightarrow> nat \<Rightarrow> nat option \<Rightarrow> 'a LinkedList" where
  "ll_remove list node prev =
     (if nodes list = [] then list
      else if node = 0 then snd (ll_popf list)
      else if node = length (nodes list) - 1 then snd (ll_popb list)
      else if prev \<noteq> None \<and> Suc (the prev) = node
        then list\<lparr>nodes := take node (nodes list) @ drop (Suc node) (nodes list),
                  length_ll := length_ll list - 1\<rparr>
      else list)"

section \<open>Hash map (lib/hashmap.h)\<close>

record ('k, 'v) HMapEntry =
  key :: 'k
  val :: 'v

text \<open>
  \<^verbatim>\<open>buckets\<close> points to a heap array of lists; the array is the list \<open>buckets\<close>, whose
  length is the number of lists that were allocated. \<^verbatim>\<open>size\<close> and \<^verbatim>\<open>capacity\<close> are
  \<^verbatim>\<open>long\<close>, the hash is an \<^verbatim>\<open>int\<close>; none of the properties below is near their limits,
  and they are integers here.
\<close>

record ('k, 'v) HashMap =
  buckets :: "('k, 'v) HMapEntry LinkedList list"
  size_hm :: int
  capacity :: int
  hash_func :: "'k \<Rightarrow> int"
  key_cmp :: "'k \<Rightarrow> 'k \<Rightarrow> bool"

definition INITIAL_HASHMAP_CAPACITY :: int where
  "INITIAL_HASHMAP_CAPACITY = 100"

text \<open>
  \<^verbatim>\<open>HASHMAP_GROWTH_FACTOR\<close> is the double 2.0. The product \<^verbatim>\<open>2.0 * capacity\<close> is
  exact for every capacity below \<open>2 ^ 53\<close>, and its value is only used when the
  loops of \<^verbatim>\<open>_resize\<close> stay in the language, which bounds it by \<^verbatim>\<open>INT_MAX\<close> (see
  \<open>resize\<close>); so the factor is the integer 2. (A capacity from \<open>2 ^ 62\<close> on, where
  the conversion of the product to \<^verbatim>\<open>long\<close> is itself undefined, needs a bucket array
  larger than the address space.)
\<close>

definition HASHMAP_GROWTH_FACTOR :: int where
  "HASHMAP_GROWTH_FACTOR = 2"

text \<open>
  The inner loop of \<^verbatim>\<open>_resize\<close>: pop the entries of one old bucket from the front
  and push each to the front of its new bucket. The status that \<^verbatim>\<open>_ll_pushf\<close>
  returns is not read by the source, and is not read here.
\<close>

function move_entries ::
  "('k \<Rightarrow> int) \<Rightarrow> int \<Rightarrow> ('k, 'v) HMapEntry LinkedList \<Rightarrow>
   ('k, 'v) HMapEntry LinkedList list \<Rightarrow> allocator \<Rightarrow>
   ub + (('k, 'v) HMapEntry LinkedList list \<times> allocator)" where
  "move_entries hf new_capacity bucket new_buckets h =
     (case ll_popf bucket of (entry_opt, bucket') \<Rightarrow>
        if present entry_opt then
          (let entry = the (item entry_opt) in
           if new_capacity = 0 then Inl DivisionByZero
           else
             (let new_pos = c_rem (hf (key entry)) new_capacity in
              if new_pos < 0 \<or> int (length new_buckets) \<le> new_pos then Inl OutOfBounds
              else
                (case ll_pushf h (new_buckets ! nat new_pos) entry of
                   (status, pushed, h') \<Rightarrow>
                     move_entries hf new_capacity bucket'
                       (new_buckets[nat new_pos := pushed]) h')))
        else Inr (new_buckets, h))"
  by pat_completeness auto
termination
proof (relation "measure (\<lambda>(hf, new_capacity, bucket, new_buckets, h). length (nodes bucket))")
  show "wf (measure (\<lambda>(hf, new_capacity, bucket, new_buckets, h). length (nodes bucket)))"
    by simp
next
  fix hf :: "'k \<Rightarrow> int" and new_capacity :: int
    and bucket :: "('k, 'v) HMapEntry LinkedList"
    and new_buckets :: "('k, 'v) HMapEntry LinkedList list" and h :: allocator
    and x entry_opt bucket' entry new_pos xa status y pushed h'
  assume "(entry_opt, bucket') = ll_popf bucket" and "present entry_opt"
  then have "length (nodes bucket') < length (nodes bucket)"
    by (auto simp: ll_popf_def opt_none_def opt_some_def split: list.splits)
  then show "((hf, new_capacity, bucket', new_buckets[nat new_pos := pushed], h'),
              (hf, new_capacity, bucket, new_buckets, h))
             \<in> measure (\<lambda>(hf, new_capacity, bucket, new_buckets, h). length (nodes bucket))"
    by simp
qed

text \<open>The outer loop of \<^verbatim>\<open>_resize\<close>, over the old buckets \<^verbatim>\<open>0 .. capacity - 1\<close>.\<close>

function move_buckets ::
  "('k \<Rightarrow> int) \<Rightarrow> int \<Rightarrow> int \<Rightarrow> ('k, 'v) HMapEntry LinkedList list \<Rightarrow> int \<Rightarrow>
   ('k, 'v) HMapEntry LinkedList list \<Rightarrow> allocator \<Rightarrow>
   ub + (('k, 'v) HMapEntry LinkedList list \<times> allocator)" where
  "move_buckets hf new_capacity old_capacity old_buckets i new_buckets h =
     (if i < old_capacity then
        (if i < 0 \<or> int (length old_buckets) \<le> i then Inl OutOfBounds
         else
           (case move_entries hf new_capacity (old_buckets ! nat i) new_buckets h of
              Inl u \<Rightarrow> Inl u
            | Inr (new_buckets', h') \<Rightarrow>
                move_buckets hf new_capacity old_capacity old_buckets (i + 1) new_buckets' h'))
      else Inr (new_buckets, h))"
  by pat_completeness auto
termination
  by (relation "measure (\<lambda>(hf, new_capacity, old_capacity, old_buckets, i, new_buckets, h).
        nat (old_capacity - i))") auto

text \<open>
  \<^verbatim>\<open>_resize\<close>. Both loops count with an \<^verbatim>\<open>int\<close> up to a \<^verbatim>\<open>long\<close> bound, which
  overflows the counter when the bound is above \<^verbatim>\<open>INT_MAX\<close>.
\<close>

definition resize ::
  "allocator \<Rightarrow> ('k, 'v) HashMap \<Rightarrow> ub + (StatusCode \<times> ('k, 'v) HashMap \<times> allocator)" where
  "resize h hmap =
     (let new_capacity = HASHMAP_GROWTH_FACTOR * capacity hmap in
      case malloc h of
        (False, h') \<Rightarrow> Inr (ERROR_OUT_OF_MEM, hmap, h')
      | (True, h') \<Rightarrow>
          if INT_MAX < new_capacity then Inl SignedOverflow
          else
            (let new_buckets = replicate (nat new_capacity) ll_new in
             case move_buckets (hash_func hmap) new_capacity (capacity hmap) (buckets hmap) 0
                    new_buckets h' of
               Inl u \<Rightarrow> Inl u
             | Inr (moved, h'') \<Rightarrow>
                 Inr (STATUS_OK, hmap\<lparr>buckets := moved, capacity := new_capacity\<rparr>, h'')))"

definition hmap_new_cap ::
  "allocator \<Rightarrow> ('k \<Rightarrow> int) \<Rightarrow> ('k \<Rightarrow> 'k \<Rightarrow> bool) \<Rightarrow> int \<Rightarrow>
   ub + (('k, 'v) HashMap opt \<times> allocator)" where
  "hmap_new_cap h hf cmp cap =
     (case malloc h of
        (False, h') \<Rightarrow> Inr (OPT_NONE_ERR ERROR_OUT_OF_MEM, h')
      | (True, h') \<Rightarrow>
          if INT_MAX < cap then Inl SignedOverflow
          else Inr (opt_some \<lparr>buckets = replicate (nat cap) ll_new, size_hm = 0,
                              capacity = cap, hash_func = hf, key_cmp = cmp\<rparr>, h'))"

definition hmap_new ::
  "allocator \<Rightarrow> ('k \<Rightarrow> int) \<Rightarrow> ('k \<Rightarrow> 'k \<Rightarrow> bool) \<Rightarrow> ub + (('k, 'v) HashMap opt \<times> allocator)" where
  "hmap_new h hf cmp = hmap_new_cap h hf cmp INITIAL_HASHMAP_CAPACITY"

text \<open>
  The bucket of a key, as the three operations compute it:
  \<^verbatim>\<open>pos = map->hash_func(key) % map->capacity\<close>, then \<^verbatim>\<open>map->buckets[pos]\<close>.
\<close>

definition bucket_pos :: "('k, 'v) HashMap \<Rightarrow> 'k \<Rightarrow> ub + nat" where
  "bucket_pos hmap k =
     (if capacity hmap = 0 then Inl DivisionByZero
      else
        (let pos = c_rem (hash_func hmap k) (capacity hmap) in
         if pos < 0 \<or> int (length (buckets hmap)) \<le> pos then Inl OutOfBounds
         else Inr (nat pos)))"

text \<open>
  The scan of \<^verbatim>\<open>_hmap_put\<close>: overwrite the value of the first node whose key
  compares equal; \<open>None\<close> when the loop reaches the end of the chain.
\<close>

fun put_scan :: "('k \<Rightarrow> 'k \<Rightarrow> bool) \<Rightarrow> 'k \<Rightarrow> 'v \<Rightarrow> ('k, 'v) HMapEntry list \<Rightarrow>
    ('k, 'v) HMapEntry list option" where
  "put_scan cmp k v [] = None"
| "put_scan cmp k v (cur # rest) =
     (if cmp (key cur) k then Some (cur\<lparr>val := v\<rparr> # rest)
      else (case put_scan cmp k v rest of
              None \<Rightarrow> None
            | Some rest' \<Rightarrow> Some (cur # rest')))"

definition hmap_put ::
  "allocator \<Rightarrow> ('k, 'v) HashMap \<Rightarrow> 'k \<Rightarrow> 'v \<Rightarrow>
   ub + (StatusCode \<times> ('k, 'v) HashMap \<times> allocator)" where
  "hmap_put h hmap k v =
     (case bucket_pos hmap k of
        Inl u \<Rightarrow> Inl u
      | Inr pos \<Rightarrow>
          (let list = buckets hmap ! pos;
               entry = \<lparr>key = k, val = v\<rparr> in
           if length_ll list = 0 then
             (case ll_pushb h list entry of (res, list', h') \<Rightarrow>
                (let map1 = hmap\<lparr>buckets := (buckets hmap)[pos := list']\<rparr> in
                 if res \<noteq> 0 then Inr (res, map1, h')
                 else
                   (let map2 = map1\<lparr>size_hm := size_hm map1 + 1\<rparr> in
                    if size_hm map2 = capacity map2 + 1 then
                      (case resize h' map2 of
                         Inl u \<Rightarrow> Inl u
                       | Inr (err, map3, h'') \<Rightarrow>
                           if err \<noteq> 0 then Inr (err, map3, h'')
                           else Inr (STATUS_OK, map3, h''))
                    else Inr (STATUS_OK, map2, h'))))
           else
             (case put_scan (key_cmp hmap) k v (nodes list) of
                Some nodes' \<Rightarrow>
                  Inr (STATUS_OK,
                       hmap\<lparr>buckets := (buckets hmap)[pos := list\<lparr>nodes := nodes'\<rparr>]\<rparr>, h)
              | None \<Rightarrow>
                  (case ll_pushb h list entry of (res, list', h') \<Rightarrow>
                     (let map1 = hmap\<lparr>buckets := (buckets hmap)[pos := list']\<rparr> in
                      if res \<noteq> 0 then Inr (res, map1, h')
                      else
                        (let map2 = map1\<lparr>size_hm := size_hm map1 + 1\<rparr> in
                         if size_hm map2 = capacity map2 + 1 then resize h' map2
                         else Inr (STATUS_OK, map2, h')))))))"

text \<open>
  The scan of \<^verbatim>\<open>_hmap_get\<close> and \<^verbatim>\<open>_hmap_remove\<close>: the position of the first node
  whose key compares equal, \<open>None\<close> for \<^verbatim>\<open>curr == NULL\<close>.
\<close>

fun find_node :: "('k \<Rightarrow> 'k \<Rightarrow> bool) \<Rightarrow> 'k \<Rightarrow> ('k, 'v) HMapEntry list \<Rightarrow> nat option" where
  "find_node cmp k [] = None"
| "find_node cmp k (cur # rest) =
     (if cmp (key cur) k then Some 0
      else (case find_node cmp k rest of None \<Rightarrow> None | Some i \<Rightarrow> Some (Suc i)))"

text \<open>
  \<^verbatim>\<open>_hmap_get\<close> takes the map by pointer; the map after the call is returned with
  the result.
\<close>

definition hmap_get ::
  "('k, 'v) HashMap \<Rightarrow> 'k \<Rightarrow> ub + ('v opt \<times> ('k, 'v) HashMap)" where
  "hmap_get hmap k =
     (case bucket_pos hmap k of
        Inl u \<Rightarrow> Inl u
      | Inr pos \<Rightarrow>
          (case find_node (key_cmp hmap) k (nodes (buckets hmap ! pos)) of
             Some cur \<Rightarrow> Inr (opt_some (val (nodes (buckets hmap ! pos) ! cur)), hmap)
           | None \<Rightarrow> Inr (opt_none, hmap)))"

definition hmap_remove ::
  "('k, 'v) HashMap \<Rightarrow> 'k \<Rightarrow> ub + ('v opt \<times> ('k, 'v) HashMap)" where
  "hmap_remove hmap k =
     (case bucket_pos hmap k of
        Inl u \<Rightarrow> Inl u
      | Inr pos \<Rightarrow>
          (case find_node (key_cmp hmap) k (nodes (buckets hmap ! pos)) of
             None \<Rightarrow> Inr (opt_none, hmap)
           | Some cur \<Rightarrow>
               (let v = val (nodes (buckets hmap ! pos) ! cur);
                    prev = (if cur = 0 then None else Some (cur - 1));
                    list' = ll_remove (buckets hmap ! pos) cur prev;
                    map1 = hmap\<lparr>buckets := (buckets hmap)[pos := list']\<rparr>
                in Inr (opt_some v, map1\<lparr>size_hm := size_hm map1 - 1\<rparr>))))"

section \<open>The test program (tests/hashmap.c)\<close>

text \<open>
  The strategies of the tests: \<^verbatim>\<open>itod_hash_func\<close> returns the key and \<^verbatim>\<open>int_cmp\<close>
  compares with \<^verbatim>\<open>==\<close>. Two small maps built over them serve as concrete inputs.
\<close>

definition itod_hash_func :: "int \<Rightarrow> int" where
  "itod_hash_func k = k"

definition int_cmp :: "int \<Rightarrow> int \<Rightarrow> bool" where
  "int_cmp a b \<longleftrightarrow> a = b"

definition map_one :: "(int, int) HashMap" where
  "map_one = \<lparr>buckets = [\<lparr>nodes = [\<lparr>key = 0, val = 10\<rparr>], length_ll = 1\<rparr>],
     size_hm = 1, capacity = 1, hash_func = itod_hash_func, key_cmp = int_cmp\<rparr>"

definition map_two :: "(int, int) HashMap" where
  "map_two = \<lparr>buckets = [\<lparr>nodes = [\<lparr>key = 0, val = 10\<rparr>], length_ll = 1\<rparr>,
                           \<lparr>nodes = [\<lparr>key = 1, val = 11\<rparr>], length_ll = 1\<rparr>],
     size_hm = 2, capacity = 2, hash_func = itod_hash_func, key_cmp = int_cmp\<rparr>"

text \<open>
  The last loop of \<^verbatim>\<open>struct_test\<close> removes one key several times over:
  \<^verbatim>\<open>for (int i = 0; i < 10; i++) { IToTS_hmap_remove(&map, 5); ... }\<close>.
\<close>

fun repeat_remove ::
  "nat \<Rightarrow> ('k, 'v) HashMap \<Rightarrow> 'k \<Rightarrow> ub + ('v opt list \<times> ('k, 'v) HashMap)" where
  "repeat_remove 0 hmap k = Inr ([], hmap)"
| "repeat_remove (Suc n) hmap k =
     (case hmap_remove hmap k of
        Inl u \<Rightarrow> Inl u
      | Inr (r, hmap') \<Rightarrow>
          (case repeat_remove n hmap' k of
             Inl u \<Rightarrow> Inl u
           | Inr (rs, hmap'') \<Rightarrow> Inr (r # rs, hmap'')))"

section \<open>Representation predicates\<close>

text \<open>The \<^verbatim>\<open>length\<close> member of a list counts its nodes.\<close>

definition chain_ok :: "'a LinkedList \<Rightarrow> bool" where
  "chain_ok list \<longleftrightarrow> length_ll list = int (length (nodes list))"

text \<open>The bucket array has \<^verbatim>\<open>capacity\<close> lists, and there is at least one.\<close>

definition array_ok :: "('k, 'v) HashMap \<Rightarrow> bool" where
  "array_ok hmap \<longleftrightarrow> 1 \<le> capacity hmap \<and> int (length (buckets hmap)) = capacity hmap"

text \<open>Every bucket counts its nodes.\<close>

definition chains_ok :: "('k, 'v) HashMap \<Rightarrow> bool" where
  "chains_ok hmap \<longleftrightarrow> (\<forall>b \<in> set (buckets hmap). chain_ok b)"

text \<open>All entries of a map, bucket after bucket.\<close>

definition entries :: "('k, 'v) HashMap \<Rightarrow> ('k, 'v) HMapEntry list" where
  "entries hmap = concat (map nodes (buckets hmap))"

text \<open>No entry of the buckets has a key with a negative hash.\<close>

definition hashes_nonneg :: "('k \<Rightarrow> int) \<Rightarrow> ('k, 'v) HMapEntry LinkedList list \<Rightarrow> bool" where
  "hashes_nonneg hf bs \<longleftrightarrow> (\<forall>b \<in> set bs. \<forall>e \<in> set (nodes b). 0 \<le> hf (key e))"

text \<open>No entry of the map has a key that compares equal to \<open>k\<close>.\<close>

definition key_absent :: "('k, 'v) HashMap \<Rightarrow> 'k \<Rightarrow> bool" where
  "key_absent hmap k \<longleftrightarrow> (\<forall>e \<in> set (entries hmap). \<not> key_cmp hmap (key e) k)"

text \<open>The sum of the chain counts over all buckets.\<close>

definition chain_count_sum :: "('k, 'v) HashMap \<Rightarrow> int" where
  "chain_count_sum hmap = sum_list (map length_ll (buckets hmap))"

text \<open>
  No two entries of a sequence have keys that compare equal, in either order of the
  arguments.
\<close>

fun keys_unique :: "('k \<Rightarrow> 'k \<Rightarrow> bool) \<Rightarrow> ('k, 'v) HMapEntry list \<Rightarrow> bool" where
  "keys_unique cmp [] = True"
| "keys_unique cmp (e # es) =
     (list_all (\<lambda>e'. \<not> cmp (key e) (key e') \<and> \<not> cmp (key e') (key e)) es
      \<and> keys_unique cmp es)"

text \<open>
  The size is the sum of the chain counts, and the map holds at most one entry for
  each key.
\<close>

definition size_and_keys_inv :: "('k, 'v) HashMap \<Rightarrow> bool" where
  "size_and_keys_inv hmap \<longleftrightarrow>
     size_hm hmap = chain_count_sum hmap \<and> keys_unique (key_cmp hmap) (entries hmap)"

text \<open>Every outcome that is left in the script of the allocator is a success.\<close>

definition granted :: "allocator \<Rightarrow> bool" where
  "granted h \<longleftrightarrow> list_all (\<lambda>b. b) h"

text \<open>What a successful \<^verbatim>\<open>_ll_pushf\<close> makes of a chain that counts its nodes.\<close>

definition push_front :: "'a \<Rightarrow> 'a LinkedList \<Rightarrow> 'a LinkedList" where
  "push_front x list = list\<lparr>nodes := x # nodes list, length_ll := length_ll list + 1\<rparr>"

text \<open>The bucket index of an entry whose hash is not negative.\<close>

definition slot :: "('k \<Rightarrow> int) \<Rightarrow> int \<Rightarrow> ('k, 'v) HMapEntry \<Rightarrow> nat" where
  "slot hf cap e = nat (hf (key e) mod cap)"

text \<open>
  The new bucket array after the entries \<open>es\<close> have been re-inserted, in this order,
  each at the front of its bucket.
\<close>

fun place_all :: "('k \<Rightarrow> int) \<Rightarrow> int \<Rightarrow> ('k, 'v) HMapEntry list \<Rightarrow>
    ('k, 'v) HMapEntry LinkedList list \<Rightarrow> ('k, 'v) HMapEntry LinkedList list" where
  "place_all hf cap [] bs = bs"
| "place_all hf cap (e # es) bs =
     place_all hf cap es (bs[slot hf cap e := push_front e (bs ! slot hf cap e)])"

text \<open>
  Every entry has a hash that is not negative and lies in the bucket of index
  \<open>hash mod capacity\<close>.
\<close>

definition placed :: "('k, 'v) HashMap \<Rightarrow> bool" where
  "placed hmap \<longleftrightarrow>
     (\<forall>i < length (buckets hmap). \<forall>e \<in> set (nodes (buckets hmap ! i)).
        0 \<le> hash_func hmap (key e) \<and> nat (hash_func hmap (key e) mod capacity hmap) = i)"

text \<open>
  The comparison is an equivalence and keys that compare equal have equal hashes:
  what the spec asks of the strategies the caller supplies.
\<close>

definition strategies_ok :: "('k, 'v) HashMap \<Rightarrow> bool" where
  "strategies_ok hmap \<longleftrightarrow>
     (\<forall>a. key_cmp hmap a a)
     \<and> (\<forall>a b. key_cmp hmap a b = key_cmp hmap b a)
     \<and> (\<forall>a b c. key_cmp hmap a b \<longrightarrow> key_cmp hmap b c \<longrightarrow> key_cmp hmap a c)
     \<and> (\<forall>a b. key_cmp hmap a b \<longrightarrow> hash_func hmap a = hash_func hmap b)"

text \<open>The representation invariant of a map, with the invariants of the data model.\<close>

definition map_ok :: "('k, 'v) HashMap \<Rightarrow> bool" where
  "map_ok hmap \<longleftrightarrow>
     array_ok hmap \<and> chains_ok hmap \<and> placed hmap \<and> strategies_ok hmap
     \<and> size_and_keys_inv hmap"

text \<open>
  The map after put has appended a new entry to the bucket \<open>pos\<close> and counted it,
  before any resize.
\<close>

definition insert_entry :: "('k, 'v) HashMap \<Rightarrow> nat \<Rightarrow> 'k \<Rightarrow> 'v \<Rightarrow> ('k, 'v) HashMap" where
  "insert_entry hmap pos k v =
     hmap\<lparr>buckets := (buckets hmap)[pos := (buckets hmap ! pos)
              \<lparr>nodes := nodes (buckets hmap ! pos) @ [\<lparr>key = k, val = v\<rparr>],
               length_ll := length_ll (buckets hmap ! pos) + 1\<rparr>],
          size_hm := size_hm hmap + 1\<rparr>"

text \<open>The map after remove has unlinked the node \<open>i\<close> of the bucket \<open>pos\<close>.\<close>

definition remove_entry :: "('k, 'v) HashMap \<Rightarrow> nat \<Rightarrow> nat \<Rightarrow> ('k, 'v) HashMap" where
  "remove_entry hmap pos i =
     hmap\<lparr>buckets := (buckets hmap)[pos := (buckets hmap ! pos)
              \<lparr>nodes := take i (nodes (buckets hmap ! pos)) @ drop (Suc i) (nodes (buckets hmap ! pos)),
               length_ll := length_ll (buckets hmap ! pos) - 1\<rparr>],
          size_hm := size_hm hmap - 1\<rparr>"

text \<open>The map after put has overwritten the value of the node \<open>i\<close> of the bucket \<open>pos\<close>.\<close>

definition overwrite_entry :: "('k, 'v) HashMap \<Rightarrow> nat \<Rightarrow> nat \<Rightarrow> 'v \<Rightarrow> ('k, 'v) HashMap" where
  "overwrite_entry hmap pos i v =
     hmap\<lparr>buckets := (buckets hmap)[pos := (buckets hmap ! pos)
              \<lparr>nodes := (nodes (buckets hmap ! pos))
                 [i := (nodes (buckets hmap ! pos) ! i)\<lparr>val := v\<rparr>]\<rparr>]\<rparr>"

section \<open>Evaluation\<close>

declare move_entries.simps [simp del] move_buckets.simps [simp del]

lemma replicate_numeral: "replicate (numeral n) x = x # replicate (pred_numeral n) x"
  by (simp add: numeral_eq_Suc)

lemma list_update_numeral: "(x # xs)[numeral n := y] = x # xs[pred_numeral n := y]"
  by (simp add: numeral_eq_Suc)

lemmas eval_defs = hmap_put_def hmap_get_def hmap_remove_def bucket_pos_def c_rem_def
  ll_pushb_def ll_pushf_def ll_popf_def ll_popb_def ll_remove_def ll_new_def resize_def
  move_entries.simps move_buckets.simps opt_some_def opt_none_def OPT_NONE_ERR_def
  STATUS_OK_def ERROR_OUT_OF_MEM_def ERROR_BAD_ARG_def HASHMAP_GROWTH_FACTOR_def INT_MAX_def
  itod_hash_func_def int_cmp_def hmap_new_cap_def hmap_new_def INITIAL_HASHMAP_CAPACITY_def
  replicate_numeral list_update_numeral

section \<open>The bucket index\<close>

lemma c_rem_nonneg: "0 \<le> a \<Longrightarrow> 1 \<le> b \<Longrightarrow> c_rem a b = a mod b"
  by (cases "a = 0") (simp_all add: c_rem_def)

lemma bucket_pos_nonneg:
  assumes "array_ok hmap" and "0 \<le> hash_func hmap k"
  shows "bucket_pos hmap k = Inr (nat (hash_func hmap k mod capacity hmap))"
    and "nat (hash_func hmap k mod capacity hmap) < length (buckets hmap)"
proof -
  from assms have c: "0 < capacity hmap" and l: "int (length (buckets hmap)) = capacity hmap"
    by (simp_all add: array_ok_def)
  have r: "c_rem (hash_func hmap k) (capacity hmap) = hash_func hmap k mod capacity hmap"
    using assms by (simp add: c_rem_nonneg array_ok_def)
  have b: "0 \<le> hash_func hmap k mod capacity hmap"
    "hash_func hmap k mod capacity hmap < capacity hmap"
    using c by simp_all
  show "bucket_pos hmap k = Inr (nat (hash_func hmap k mod capacity hmap))"
    using c l b by (simp add: bucket_pos_def r)
  show "nat (hash_func hmap k mod capacity hmap) < length (buckets hmap)"
    using l b by linarith
qed

lemma bucket_pos_bound: "bucket_pos hmap k = Inr pos \<Longrightarrow> pos < length (buckets hmap)"
  by (auto simp: bucket_pos_def Let_def split: if_splits)

text \<open>
  When no stored key has a negative hash, the indices that \<^verbatim>\<open>_resize\<close> computes for
  the entries it moves are in range as well, whatever the allocator does; so put
  stays in the language when the key it is given has no negative hash either and
  the doubled capacity fits the \<^verbatim>\<open>int\<close> loop counters.
\<close>

lemma ll_popf_Nil: "nodes list = [] \<Longrightarrow> ll_popf list = (opt_none, list)"
  by (simp add: ll_popf_def)

lemma ll_popf_Cons:
  "nodes list = x # xs \<Longrightarrow>
   \<exists>list'. ll_popf list = (opt_some x, list') \<and> nodes list' = xs"
  by (cases xs) (simp_all add: ll_popf_def)

lemma move_entries_defined:
  assumes "1 \<le> cap" and "length bs = nat cap" and "\<forall>e \<in> set (nodes b). 0 \<le> hf (key e)"
  shows "\<exists>bs' h'. move_entries hf cap b bs h = Inr (bs', h') \<and> length bs' = length bs"
  using assms
proof (induction "nodes b" arbitrary: b bs h)
  case Nil
  then show ?case
    by (simp add: move_entries.simps[of hf cap b] ll_popf_Nil opt_none_def)
next
  case (Cons e es)
  from Cons.hyps(2) obtain b' where pop: "ll_popf b = (opt_some e, b')" and b': "nodes b' = es"
    using ll_popf_Cons[of b e es] by auto
  have nn: "0 \<le> hf (key e)" using Cons.prems(3) Cons.hyps(2)[symmetric] by simp
  have rem: "c_rem (hf (key e)) cap = hf (key e) mod cap"
    using nn Cons.prems(1) by (rule c_rem_nonneg)
  have pos: "0 < cap" using Cons.prems(1) by simp
  have range: "\<not> hf (key e) mod cap < 0" "\<not> int (length bs) \<le> hf (key e) mod cap"
    using pos Cons.prems(2) by (simp_all add: not_less not_le)
  obtain status pushed h1
    where push: "ll_pushf h (bs ! nat (hf (key e) mod cap)) e = (status, pushed, h1)"
    by (cases "ll_pushf h (bs ! nat (hf (key e) mod cap)) e") auto
  let ?bs' = "bs[nat (hf (key e) mod cap) := pushed]"
  have step: "move_entries hf cap b bs h = move_entries hf cap b' ?bs' h1"
    using pos range push
    by (subst move_entries.simps[of hf cap b]) (simp add: pop opt_some_def rem Let_def)
  have "\<exists>bs'' h'. move_entries hf cap b' ?bs' h1 = Inr (bs'', h') \<and> length bs'' = length ?bs'"
    using Cons.hyps(1)[OF b'[symmetric] Cons.prems(1), of ?bs' h1] Cons.prems(2,3)
      Cons.hyps(2)[symmetric] b' by simp
  with step show ?case by simp
qed

lemma move_buckets_defined:
  assumes "1 \<le> cap'" and "length bs = nat cap'" and "int (length olds) = cap"
    and "hashes_nonneg hf olds" and "0 \<le> i" and "i \<le> cap"
  shows "\<exists>r. move_buckets hf cap' cap olds i bs h = Inr r"
  using assms
proof (induction "nat (cap - i)" arbitrary: i bs h)
  case 0
  then have "i = cap" by simp
  then show ?case by (subst move_buckets.simps) simp
next
  case (Suc n)
  then have lt: "i < cap" by linarith
  with Suc.prems(3,5) have il: "nat i < length olds" by linarith
  then have "olds ! nat i \<in> set olds" by simp
  with Suc.prems(4) have nn: "\<forall>e \<in> set (nodes (olds ! nat i)). 0 \<le> hf (key e)"
    by (simp add: hashes_nonneg_def)
  from move_entries_defined[OF Suc.prems(1,2) nn, of h] obtain bs' h'
    where me: "move_entries hf cap' (olds ! nat i) bs h = Inr (bs', h')"
      and len: "length bs' = length bs" by blast
  have n: "n = nat (cap - (i + 1))" using Suc.hyps(2) by linarith
  have "\<exists>r. move_buckets hf cap' cap olds (i + 1) bs' h' = Inr r"
    using Suc.hyps(1)[OF n Suc.prems(1) _ Suc.prems(3,4), of bs' h'] len Suc.prems(2,5) lt
    by simp
  moreover have "move_buckets hf cap' cap olds i bs h = move_buckets hf cap' cap olds (i + 1) bs' h'"
    using lt Suc.prems(3,5) il
    by (subst move_buckets.simps[of hf cap' cap olds i]) (simp add: me)
  ultimately show ?case by simp
qed

lemma resize_defined:
  assumes "array_ok hmap" and "hashes_nonneg (hash_func hmap) (buckets hmap)"
    and "2 * capacity hmap \<le> INT_MAX"
  shows "\<exists>r. resize h hmap = Inr r"
proof (cases "malloc h")
  case (Pair a h')
  from assms(1) have cap: "1 \<le> capacity hmap" and len: "int (length (buckets hmap)) = capacity hmap"
    by (simp_all add: array_ok_def)
  show ?thesis
  proof (cases a)
    case False
    with Pair show ?thesis by (simp add: resize_def)
  next
    case True
    have c2: "1 \<le> 2 * capacity hmap" using cap by simp
    have "length (replicate (nat (2 * capacity hmap)) (ll_new :: ('a, 'b) HMapEntry LinkedList))
            = nat (2 * capacity hmap)" by simp
    from move_buckets_defined[OF c2 this len assms(2), of 0 h'] cap
    obtain r where "move_buckets (hash_func hmap) (2 * capacity hmap) (capacity hmap)
                      (buckets hmap) 0 (replicate (nat (2 * capacity hmap)) ll_new) h' = Inr r"
      by auto
    with Pair True assms(3) show ?thesis
      by (cases r) (simp add: resize_def HASHMAP_GROWTH_FACTOR_def Let_def)
  qed
qed

lemma hashes_nonneg_update:
  assumes "hashes_nonneg hf bs" and "\<forall>e \<in> set (nodes x). 0 \<le> hf (key e)"
  shows "hashes_nonneg hf (bs[pos := x])"
  using assms set_update_subset_insert[of bs pos x] by (auto simp: hashes_nonneg_def)

lemma put_defined:
  assumes "array_ok hmap" and "hashes_nonneg (hash_func hmap) (buckets hmap)"
    and "0 \<le> hash_func hmap k" and "2 * capacity hmap \<le> INT_MAX"
  shows "\<exists>r. hmap_put h hmap k v = Inr r"
proof -
  let ?pos = "nat (hash_func hmap k mod capacity hmap)"
  let ?b = "buckets hmap ! ?pos"
  have pos: "bucket_pos hmap k = Inr ?pos" and plen: "?pos < length (buckets hmap)"
    using bucket_pos_nonneg[OF assms(1,3)] by simp_all
  have "?b \<in> set (buckets hmap)" using plen by (rule nth_mem)
  with assms(2) have old: "\<forall>e \<in> set (nodes ?b). 0 \<le> hash_func hmap (key e)"
    by (simp add: hashes_nonneg_def)
  have rs: "\<exists>r. resize h' (hmap\<lparr>buckets := (buckets hmap)[?pos := x], size_hm := s\<rparr>) = Inr r"
    if "\<forall>e \<in> set (nodes x). 0 \<le> hash_func hmap (key e)" for h' x s
    using that assms(1,4) hashes_nonneg_update[OF assms(2), of x ?pos]
    by (intro resize_defined) (simp_all add: array_ok_def)
  obtain res list' h' where pb: "ll_pushb h ?b \<lparr>key = k, val = v\<rparr> = (res, list', h')"
    by (cases "ll_pushb h ?b \<lparr>key = k, val = v\<rparr>") auto
  have new: "\<forall>e \<in> set (nodes list'). 0 \<le> hash_func hmap (key e)"
    using pb old assms(3) by (auto simp: ll_pushb_def split: prod.splits bool.splits if_splits)
  from rs[OF new] obtain r where
    r: "resize h' (hmap\<lparr>buckets := (buckets hmap)[?pos := list'], size_hm := size_hm hmap + 1\<rparr>) = Inr r"
    by blast
  obtain err m3 h3 where r3: "r = (err, m3, h3)" by (cases r) auto
  show ?thesis
    using r
    by (auto simp: hmap_put_def pos Let_def pb r3 split: option.splits)
qed

text \<open>
  C9. When the capacity is at least 1, the bucket array has \<^verbatim>\<open>capacity\<close> lists and the
  hash of the key is not negative, the index \<^verbatim>\<open>hash % capacity\<close> that get, put and
  remove compute lies in \<open>[0, capacity)\<close> and inside the bucket array: the index
  computation leaves the language in none of them. Get and remove return, and so
  does a put that does not go on to resize; a put that resizes returns as well when
  no stored key has a negative hash and twice the capacity is at most \<^verbatim>\<open>INT_MAX\<close>.
\<close>

theorem bucket_index_in_bounds:
  assumes "1 \<le> capacity hmap" and "int (length (buckets hmap)) = capacity hmap"
    and "0 \<le> hash_func hmap k"
  shows "0 \<le> c_rem (hash_func hmap k) (capacity hmap)
       \<and> c_rem (hash_func hmap k) (capacity hmap) < capacity hmap
       \<and> bucket_pos hmap k = Inr (nat (c_rem (hash_func hmap k) (capacity hmap)))
       \<and> nat (c_rem (hash_func hmap k) (capacity hmap)) < length (buckets hmap)
       \<and> (\<exists>r. hmap_get hmap k = Inr r)
       \<and> (\<exists>r. hmap_remove hmap k = Inr r)
       \<and> (size_hm hmap \<noteq> capacity hmap \<longrightarrow> (\<exists>r. hmap_put h hmap k v = Inr r))
       \<and> (hashes_nonneg (hash_func hmap) (buckets hmap) \<and> 2 * capacity hmap \<le> INT_MAX
              \<longrightarrow> (\<exists>r. hmap_put h hmap k v = Inr r))"
proof -
  have ok: "array_ok hmap" using assms by (simp add: array_ok_def)
  have r: "c_rem (hash_func hmap k) (capacity hmap) = hash_func hmap k mod capacity hmap"
    using assms by (simp add: c_rem_nonneg)
  have pos: "bucket_pos hmap k = Inr (nat (hash_func hmap k mod capacity hmap))"
    by (rule bucket_pos_nonneg(1)[OF ok assms(3)])
  have lt: "nat (hash_func hmap k mod capacity hmap) < length (buckets hmap)"
    by (rule bucket_pos_nonneg(2)[OF ok assms(3)])
  have g: "\<exists>r. hmap_get hmap k = Inr r"
    by (simp add: hmap_get_def pos split: option.splits)
  have rm: "\<exists>r. hmap_remove hmap k = Inr r"
    by (simp add: hmap_remove_def pos Let_def split: option.splits)
  have p: "size_hm hmap \<noteq> capacity hmap \<longrightarrow> (\<exists>r. hmap_put h hmap k v = Inr r)"
    by (auto simp: hmap_put_def pos Let_def ll_pushb_def
          split: option.splits prod.splits bool.splits)
  have p': "hashes_nonneg (hash_func hmap) (buckets hmap) \<and> 2 * capacity hmap \<le> INT_MAX
              \<longrightarrow> (\<exists>r. hmap_put h hmap k v = Inr r)"
    using put_defined[OF ok _ assms(3)] by blast
  from assms(1) have "0 \<le> hash_func hmap k mod capacity hmap"
    and "hash_func hmap k mod capacity hmap < capacity hmap" by simp_all
  with r pos lt g rm p p' show ?thesis by simp
qed

theorem bucket_index_in_bounds_witness:
  "1 \<le> capacity map_two \<and> int (length (buckets map_two)) = capacity map_two
   \<and> 0 \<le> hash_func map_two 7
   \<and> bucket_pos map_two 7 = Inr 1 \<and> hmap_get map_two 7 = Inr (opt_none, map_two)"
  using bucket_index_in_bounds[of map_two 7 "[]" 0]
  by (simp add: map_two_def itod_hash_func_def c_rem_def hmap_get_def int_cmp_def
        bucket_pos_def)

section \<open>Lookup\<close>

lemma find_node_find:
  "(case find_node cmp k ns of None \<Rightarrow> None | Some i \<Rightarrow> Some (ns ! i))
     = List.find (\<lambda>e. cmp (key e) k) ns"
  by (induction ns) (auto split: option.splits)

lemma find_node_None: "find_node cmp k ns = None \<longleftrightarrow> (\<forall>e \<in> set ns. \<not> cmp (key e) k)"
  by (induction ns) (auto split: option.splits)

lemma find_node_Some:
  "find_node cmp k ns = Some i \<Longrightarrow>
     i < length ns \<and> cmp (key (ns ! i)) k \<and> (\<forall>j < i. \<not> cmp (key (ns ! j)) k)"
proof (induction ns arbitrary: i)
  case Nil
  then show ?case by simp
next
  case (Cons e es)
  show ?case
  proof (cases "cmp (key e) k")
    case True
    with Cons.prems show ?thesis by simp
  next
    case False
    with Cons.prems obtain i' where i': "find_node cmp k es = Some i'" "i = Suc i'"
      by (auto split: option.splits)
    from Cons.IH[OF i'(1)] False i'(2) show ?thesis
      by (auto simp: less_Suc_eq_0_disj)
  qed
qed

text \<open>
  C7. Whenever get computes its bucket index without leaving the language, so that
  \<open>pos\<close> is the index \<^verbatim>\<open>hash % capacity\<close> and lies in the bucket array (which is
  \<open>hash mod capacity\<close> for a hash that is not negative and a positive capacity), get
  returns what the chain at \<open>pos\<close> alone determines. When an entry of that chain has
  a key that matches under the comparison, the result is the option that
  \<^verbatim>\<open>opt_T_some\<close> makes of the value of the first such entry: its \<^verbatim>\<open>present\<close> member is
  true, its \<^verbatim>\<open>item\<close> is that value and its \<^verbatim>\<open>error\<close> is \<^verbatim>\<open>STATUS_OK\<close>. When no entry
  of the chain matches, the result is the empty option: \<^verbatim>\<open>present\<close> is false, there
  is no item and \<^verbatim>\<open>error\<close> is \<^verbatim>\<open>STATUS_OK\<close>.
\<close>

theorem get_first_match:
  fixes hmap :: "('k, 'v) HashMap"
  assumes "bucket_pos hmap k = Inr pos"
  shows "int pos = c_rem (hash_func hmap k) (capacity hmap)
         \<and> (0 \<le> hash_func hmap k \<and> 0 < capacity hmap
                \<longrightarrow> int pos = hash_func hmap k mod capacity hmap)
         \<and> hmap_get hmap k =
             Inr ((case List.find (\<lambda>e. key_cmp hmap (key e) k) (nodes (buckets hmap ! pos)) of
                     Some e \<Rightarrow> opt_some (val e)
                   | None \<Rightarrow> opt_none), hmap)
         \<and> hmap_get hmap k =
             Inr ((case List.find (\<lambda>e. key_cmp hmap (key e) k) (nodes (buckets hmap ! pos)) of
                     Some e \<Rightarrow> \<lparr>item = Some (val e), present = True, error = STATUS_OK\<rparr>
                   | None \<Rightarrow> \<lparr>item = None, present = False, error = STATUS_OK\<rparr>), hmap)
         \<and> \<not> present (opt_none :: 'v opt) \<and> error (opt_none :: 'v opt) = STATUS_OK"
proof -
  from assms have pos: "int pos = c_rem (hash_func hmap k) (capacity hmap)"
    by (auto simp: bucket_pos_def Let_def split: if_splits)
  then have m: "0 \<le> hash_func hmap k \<and> 0 < capacity hmap
                  \<longrightarrow> int pos = hash_func hmap k mod capacity hmap"
    by (simp add: c_rem_nonneg)
  have g: "hmap_get hmap k =
          Inr ((case List.find (\<lambda>e. key_cmp hmap (key e) k) (nodes (buckets hmap ! pos)) of
                  Some e \<Rightarrow> opt_some (val e)
                | None \<Rightarrow> opt_none), hmap)"
    unfolding find_node_find[symmetric]
    by (simp add: hmap_get_def assms split: option.splits)
  have fields: "(case x of Some e \<Rightarrow> opt_some (val e) | None \<Rightarrow> opt_none)
      = (case x of Some e \<Rightarrow> \<lparr>item = Some (val e), present = True, error = STATUS_OK\<rparr>
         | None \<Rightarrow> \<lparr>item = None, present = False, error = STATUS_OK\<rparr>)"
    for x :: "('k, 'v) HMapEntry option"
    by (cases x) (simp_all add: opt_some_def opt_none_def STATUS_OK_def)
  have g': "hmap_get hmap k =
          Inr ((case List.find (\<lambda>e. key_cmp hmap (key e) k) (nodes (buckets hmap ! pos)) of
                  Some e \<Rightarrow> \<lparr>item = Some (val e), present = True, error = STATUS_OK\<rparr>
                | None \<Rightarrow> \<lparr>item = None, present = False, error = STATUS_OK\<rparr>), hmap)"
    using g unfolding fields .
  have n: "\<not> present (opt_none :: 'v opt)" "error (opt_none :: 'v opt) = STATUS_OK"
    by (simp_all add: opt_none_def STATUS_OK_def)
  from pos m g g' n show ?thesis by (intro conjI)
qed

theorem get_first_match_witness:
  "bucket_pos map_two 3 = Inr 1 \<and> bucket_pos map_two 1 = Inr 1
   \<and> hmap_get map_two 3 = Inr (\<lparr>item = None, present = False, error = 0\<rparr>, map_two)
   \<and> hmap_get map_two 1 = Inr (\<lparr>item = Some 11, present = True, error = 0\<rparr>, map_two)
   \<and> hmap_get map_two 3 = Inr (opt_none, map_two)
   \<and> hmap_get map_two 1 = Inr (opt_some 11, map_two)"
proof -
  have p3: "bucket_pos map_two 3 = Inr 1" and p1: "bucket_pos map_two 1 = Inr 1"
    by (simp_all add: eval_defs map_two_def)
  note t3 = get_first_match[OF p3] and t1 = get_first_match[OF p1]
  have a: "hmap_get map_two 3 = Inr (\<lparr>item = None, present = False, error = 0\<rparr>, map_two)"
    using t3 by (simp add: map_two_def int_cmp_def STATUS_OK_def opt_none_def)
  have b: "hmap_get map_two 1 = Inr (\<lparr>item = Some 11, present = True, error = 0\<rparr>, map_two)"
    using t1 by (simp add: map_two_def int_cmp_def STATUS_OK_def opt_some_def)
  have c: "hmap_get map_two 3 = Inr (opt_none, map_two)"
    using a by (simp add: opt_none_def)
  have d: "hmap_get map_two 1 = Inr (opt_some 11, map_two)"
    using b by (simp add: opt_some_def)
  from p3 p1 a b c d show ?thesis by (intro conjI)
qed

text \<open>
  C10. A call of get that returns leaves the map as it was: the bucket array, every
  chain with its entries in their order, the size, the capacity and both strategy
  functions.
\<close>

theorem get_keeps_map: "hmap_get hmap k = Inr (result, hmap') \<Longrightarrow> hmap' = hmap"
  by (auto simp: hmap_get_def split: sum.splits option.splits)

theorem get_keeps_map_witness:
  "hmap_get map_two 1 = Inr (opt_some 11, map_two)
   \<and> snd (projr (hmap_get map_two 1)) = map_two"
proof -
  have g: "hmap_get map_two 1 = Inr (opt_some 11, snd (projr (hmap_get map_two 1)))"
    by (simp add: eval_defs map_two_def)
  from get_keeps_map[OF g] have "snd (projr (hmap_get map_two 1)) = map_two" .
  with g show ?thesis by simp
qed

section \<open>Removal of a key that is not in the map\<close>

lemma remove_absent_once:
  assumes "bucket_pos hmap k = Inr pos"
    and "key_absent hmap k"
  shows "hmap_remove hmap k = Inr (opt_none, hmap)"
proof -
  have "pos < length (buckets hmap)" using assms(1) by (rule bucket_pos_bound)
  then have "buckets hmap ! pos \<in> set (buckets hmap)" by (rule nth_mem)
  then have "set (nodes (buckets hmap ! pos)) \<subseteq> set (entries hmap)"
    unfolding entries_def by auto
  with assms(2) have "find_node (key_cmp hmap) k (nodes (buckets hmap ! pos)) = None"
    by (auto simp: find_node_None key_absent_def)
  then show ?thesis by (simp add: hmap_remove_def assms(1))
qed

text \<open>
  C8. When the bucket index of the key is computed in range and no entry of the map
  has a key that matches it, any number of remove calls in a row each return the
  empty option (not present, error member \<^verbatim>\<open>STATUS_OK\<close>) and leave the whole map,
  so its size, its capacity and every bucket, as it was.
\<close>

theorem remove_absent_noop:
  fixes hmap :: "('k, 'v) HashMap"
  assumes "bucket_pos hmap k = Inr pos"
    and "key_absent hmap k"
  shows "repeat_remove n hmap k = Inr (replicate n opt_none, hmap)
       \<and> \<not> present (opt_none :: 'v opt) \<and> error (opt_none :: 'v opt) = STATUS_OK"
proof -
  have "repeat_remove n hmap k = Inr (replicate n opt_none, hmap)"
    by (induction n) (simp_all add: remove_absent_once[OF assms])
  then show ?thesis by (simp add: opt_none_def STATUS_OK_def)
qed

theorem remove_absent_noop_witness:
  "bucket_pos map_two 5 = Inr 1 \<and> key_absent map_two 5
   \<and> repeat_remove 10 map_two 5 = Inr (replicate 10 opt_none, map_two)"
proof -
  have p: "bucket_pos map_two 5 = Inr 1"
    by (simp add: eval_defs map_two_def)
  have a: "key_absent map_two 5"
    by (simp add: key_absent_def entries_def map_two_def int_cmp_def)
  have "repeat_remove 10 map_two 5 = Inr (replicate 10 opt_none, map_two)"
    using remove_absent_noop[OF p a, of 10] by (rule conjunct1)
  with p a show ?thesis by blast
qed

section \<open>Insertion and update\<close>


lemma put_scan_found:
  "find_node cmp k ns = Some i \<Longrightarrow> put_scan cmp k v ns = Some (ns[i := (ns ! i)\<lparr>val := v\<rparr>])"
proof (induction ns arbitrary: i)
  case Nil
  then show ?case by simp
next
  case (Cons e es)
  then show ?case by (auto split: option.splits if_splits)
qed

lemma put_scan_missing: "find_node cmp k ns = None \<Longrightarrow> put_scan cmp k v ns = None"
  by (induction ns) (auto split: option.splits if_splits)

lemma find_node_same_keys:
  "map key ns' = map key ns \<Longrightarrow> find_node cmp k ns' = find_node cmp k ns"
proof (induction ns arbitrary: ns')
  case Nil
  then show ?case by simp
next
  case (Cons e es)
  then obtain e' es' where "ns' = e' # es'" "key e' = key e" "map key es' = map key es"
    by (cases ns') auto
  with Cons.IH[of es'] show ?case by simp
qed

lemma map_key_overwrite: "map key (ns[i := (ns ! i)\<lparr>val := v\<rparr>]) = map key ns"
  by (induction ns arbitrary: i) (auto split: nat.splits)

lemma bucket_pos_cong:
  "capacity m' = capacity m \<Longrightarrow> hash_func m' = hash_func m \<Longrightarrow>
   length (buckets m') = length (buckets m) \<Longrightarrow> bucket_pos m' k = bucket_pos m k"
  by (simp add: bucket_pos_def)

lemma put_update_path:
  assumes "bucket_pos hmap k = Inr pos"
    and "find_node (key_cmp hmap) k (nodes (buckets hmap ! pos)) = Some i"
    and "length_ll (buckets hmap ! pos) \<noteq> 0"
  shows "hmap_put h hmap k v =
     Inr (STATUS_OK,
          hmap\<lparr>buckets := (buckets hmap)[pos := (buckets hmap ! pos)
             \<lparr>nodes := (nodes (buckets hmap ! pos))
                [i := (nodes (buckets hmap ! pos) ! i)\<lparr>val := v\<rparr>]\<rparr>]\<rparr>, h)"
  using assms by (simp add: hmap_put_def Let_def put_scan_found)

text \<open>
  C5. In a map whose chains count their nodes, let get find the key \<open>k\<close>: at the
  node \<open>i\<close> of the bucket \<open>pos\<close>. Then put of \<open>k\<close> with \<open>v1\<close> followed by put of \<open>k\<close>
  with \<open>v2\<close> both return \<^verbatim>\<open>STATUS_OK\<close>, neither allocates (so neither resizes: the
  allocator is untouched and the capacity and the number of buckets stay), and the
  size stays. The map after the first put is the given one with \<open>v1\<close> written into
  that node, and the map after the second is the given one with \<open>v2\<close> written into
  it: the keys of the chain are the same and the value of the node is \<open>v2\<close>. Get of
  \<open>k\<close> then returns the option that is present, holds the item \<open>v2\<close> and has the error
  \<^verbatim>\<open>STATUS_OK\<close>.
\<close>

theorem put_existing_overwrites:
  assumes "chains_ok hmap" and "hmap_get hmap k = Inr (r, hmap')" and "present r"
  shows "\<exists>m1 m2 pos i. hmap_put h hmap k v1 = Inr (STATUS_OK, m1, h)
           \<and> hmap_put h m1 k v2 = Inr (STATUS_OK, m2, h)
           \<and> size_hm m1 = size_hm hmap \<and> size_hm m2 = size_hm hmap
           \<and> capacity m1 = capacity hmap \<and> capacity m2 = capacity hmap
           \<and> length (buckets m2) = length (buckets hmap)
           \<and> hmap_get m2 k = Inr (opt_some v2, m2)
           \<and> hmap_get m2 k = Inr (\<lparr>item = Some v2, present = True, error = STATUS_OK\<rparr>, m2)
           \<and> bucket_pos hmap k = Inr pos
           \<and> find_node (key_cmp hmap) k (nodes (buckets hmap ! pos)) = Some i
           \<and> i < length (nodes (buckets hmap ! pos))
           \<and> m1 = overwrite_entry hmap pos i v1
           \<and> m2 = overwrite_entry hmap pos i v2
           \<and> map key (nodes (buckets m2 ! pos)) = map key (nodes (buckets hmap ! pos))
           \<and> val (nodes (buckets m2 ! pos) ! i) = v2"
proof -
  from assms(2,3) obtain pos i where pos: "bucket_pos hmap k = Inr pos"
    and i: "find_node (key_cmp hmap) k (nodes (buckets hmap ! pos)) = Some i"
    by (auto simp: hmap_get_def opt_none_def split: sum.splits option.splits)
  have plen: "pos < length (buckets hmap)" using pos by (rule bucket_pos_bound)
  have ilen: "i < length (nodes (buckets hmap ! pos))" using find_node_Some[OF i] by simp
  from assms(1) plen have "chain_ok (buckets hmap ! pos)"
    by (simp add: chains_ok_def)
  with ilen have l0: "length_ll (buckets hmap ! pos) \<noteq> 0"
    by (auto simp: chain_ok_def)
  define b where "b = buckets hmap ! pos"
  define b1 where "b1 = b\<lparr>nodes := (nodes b)[i := (nodes b ! i)\<lparr>val := v1\<rparr>]\<rparr>"
  define m1 where "m1 = hmap\<lparr>buckets := (buckets hmap)[pos := b1]\<rparr>"
  define b2 where "b2 = b1\<lparr>nodes := (nodes b1)[i := (nodes b1 ! i)\<lparr>val := v2\<rparr>]\<rparr>"
  define m2 where "m2 = m1\<lparr>buckets := (buckets m1)[pos := b2]\<rparr>"
  have p1: "hmap_put h hmap k v1 = Inr (STATUS_OK, m1, h)"
    using put_update_path[OF pos i l0] by (simp add: m1_def b1_def b_def)
  have m1b: "buckets m1 ! pos = b1" using plen by (simp add: m1_def)
  have pos1: "bucket_pos m1 k = Inr pos"
    using pos bucket_pos_cong[of m1 hmap k] by (simp add: m1_def)
  have k1: "key_cmp m1 = key_cmp hmap" by (simp add: m1_def)
  have "find_node (key_cmp hmap) k (nodes b1) = find_node (key_cmp hmap) k (nodes b)"
    by (rule find_node_same_keys) (simp add: b1_def map_key_overwrite)
  with i have i1: "find_node (key_cmp m1) k (nodes (buckets m1 ! pos)) = Some i"
    by (simp add: m1b k1 b_def)
  have l1: "length_ll (buckets m1 ! pos) \<noteq> 0"
    using l0 by (simp add: m1b b1_def b_def)
  have p2: "hmap_put h m1 k v2 = Inr (STATUS_OK, m2, h)"
    using put_update_path[OF pos1 i1 l1] by (simp add: m2_def b2_def m1b)
  have m2b: "buckets m2 ! pos = b2" using plen by (simp add: m2_def m1_def)
  have pos2: "bucket_pos m2 k = Inr pos"
    using pos1 bucket_pos_cong[of m2 m1 k] by (simp add: m2_def)
  have k2: "key_cmp m2 = key_cmp m1" by (simp add: m2_def)
  have "find_node (key_cmp m1) k (nodes b2) = find_node (key_cmp m1) k (nodes b1)"
    by (rule find_node_same_keys) (simp add: b2_def map_key_overwrite)
  with i1 have i2: "find_node (key_cmp m2) k (nodes (buckets m2 ! pos)) = Some i"
    by (simp add: m2b k2 m1b)
  have v2: "val (nodes b2 ! i) = v2" using ilen by (simp add: b2_def b1_def b_def)
  then have g: "hmap_get m2 k = Inr (opt_some v2, m2)"
    using i2[unfolded m2b] by (simp add: hmap_get_def pos2 m2b)
  then have g': "hmap_get m2 k
                   = Inr (\<lparr>item = Some v2, present = True, error = STATUS_OK\<rparr>, m2)"
    by (simp add: opt_some_def STATUS_OK_def)
  have o1: "m1 = overwrite_entry hmap pos i v1"
    by (simp add: m1_def b1_def b_def overwrite_entry_def)
  have nb2: "nodes b2 = (nodes b)[i := (nodes b ! i)\<lparr>val := v2\<rparr>]"
    using ilen by (simp add: b2_def b1_def b_def)
  have "b2 = b\<lparr>nodes := (nodes b)[i := (nodes b ! i)\<lparr>val := v2\<rparr>]\<rparr>"
    using nb2 by (simp add: b2_def b1_def)
  then have o2: "m2 = overwrite_entry hmap pos i v2"
    by (simp add: m2_def m1_def b_def overwrite_entry_def)
  have keys: "map key (nodes (buckets m2 ! pos)) = map key (nodes (buckets hmap ! pos))"
    unfolding m2b nb2 by (simp add: map_key_overwrite b_def)
  have vv: "val (nodes (buckets m2 ! pos) ! i) = v2" unfolding m2b by (rule v2)
  have sz: "size_hm m1 = size_hm hmap" "size_hm m2 = size_hm hmap"
    "capacity m1 = capacity hmap" "capacity m2 = capacity hmap"
    "length (buckets m2) = length (buckets hmap)"
    by (simp_all add: m1_def m2_def)
  from p1 p2 sz g g' pos i ilen o1 o2 keys vv show ?thesis
    by (intro exI[of _ m1] exI[of _ m2] exI[of _ pos] exI[of _ i] conjI)
qed

theorem put_existing_overwrites_witness:
  "chains_ok map_two
   \<and> hmap_get map_two 1 = Inr (\<lparr>item = Some 11, present = True, error = 0\<rparr>, map_two)
   \<and> present (\<lparr>item = Some 11, present = True, error = 0\<rparr> :: int opt)
   \<and> hmap_put [False] map_two 1 20
       = Inr (STATUS_OK,
              \<lparr>buckets = [\<lparr>nodes = [\<lparr>key = 0, val = (10::int)\<rparr>], length_ll = 1\<rparr>,
                          \<lparr>nodes = [\<lparr>key = 1, val = 20\<rparr>], length_ll = 1\<rparr>],
               size_hm = 2, capacity = 2, hash_func = itod_hash_func, key_cmp = int_cmp\<rparr>,
              [False])
   \<and> hmap_put [False]
         \<lparr>buckets = [\<lparr>nodes = [\<lparr>key = 0, val = (10::int)\<rparr>], length_ll = 1\<rparr>,
                     \<lparr>nodes = [\<lparr>key = 1, val = 20\<rparr>], length_ll = 1\<rparr>],
          size_hm = 2, capacity = 2, hash_func = itod_hash_func, key_cmp = int_cmp\<rparr> 1 30
       = Inr (STATUS_OK,
              \<lparr>buckets = [\<lparr>nodes = [\<lparr>key = 0, val = (10::int)\<rparr>], length_ll = 1\<rparr>,
                          \<lparr>nodes = [\<lparr>key = 1, val = 30\<rparr>], length_ll = 1\<rparr>],
               size_hm = 2, capacity = 2, hash_func = itod_hash_func, key_cmp = int_cmp\<rparr>,
              [False])
   \<and> hmap_get
         \<lparr>buckets = [\<lparr>nodes = [\<lparr>key = 0, val = (10::int)\<rparr>], length_ll = 1\<rparr>,
                     \<lparr>nodes = [\<lparr>key = 1, val = 30\<rparr>], length_ll = 1\<rparr>],
          size_hm = 2, capacity = 2, hash_func = itod_hash_func, key_cmp = int_cmp\<rparr> 1
       = Inr (\<lparr>item = Some (30::int), present = True, error = 0\<rparr>,
              \<lparr>buckets = [\<lparr>nodes = [\<lparr>key = 0, val = (10::int)\<rparr>], length_ll = 1\<rparr>,
                          \<lparr>nodes = [\<lparr>key = 1, val = 30\<rparr>], length_ll = 1\<rparr>],
               size_hm = 2, capacity = 2, hash_func = itod_hash_func, key_cmp = int_cmp\<rparr>)"
proof -
  let ?r = "\<lparr>item = Some 11, present = True, error = 0\<rparr> :: int opt"
  let ?m1 = "\<lparr>buckets = [\<lparr>nodes = [\<lparr>key = 0, val = (10::int)\<rparr>], length_ll = 1\<rparr>,
                         \<lparr>nodes = [\<lparr>key = 1, val = 20\<rparr>], length_ll = 1\<rparr>],
              size_hm = 2, capacity = 2, hash_func = itod_hash_func, key_cmp = int_cmp\<rparr>"
  let ?m2 = "\<lparr>buckets = [\<lparr>nodes = [\<lparr>key = 0, val = (10::int)\<rparr>], length_ll = 1\<rparr>,
                         \<lparr>nodes = [\<lparr>key = 1, val = 30\<rparr>], length_ll = 1\<rparr>],
              size_hm = 2, capacity = 2, hash_func = itod_hash_func, key_cmp = int_cmp\<rparr>"
  have c: "chains_ok map_two" by (simp add: chains_ok_def chain_ok_def map_two_def)
  have g: "hmap_get map_two 1 = Inr (?r, map_two)"
    by (simp add: eval_defs map_two_def)
  have p: "present ?r" by simp
  have bp: "bucket_pos map_two 1 = Inr 1" by (simp add: eval_defs map_two_def)
  have fn: "find_node (key_cmp map_two) 1 (nodes (buckets map_two ! 1)) = Some 0"
    by (simp add: map_two_def int_cmp_def)
  have o1: "overwrite_entry map_two 1 0 20 = ?m1"
    by (simp add: overwrite_entry_def map_two_def)
  have o2: "overwrite_entry map_two 1 0 30 = ?m2"
    by (simp add: overwrite_entry_def map_two_def)
  from put_existing_overwrites[OF c g p, of "[False]" 20 30] obtain m1 m2 pos i
    where p1: "hmap_put [False] map_two 1 20 = Inr (STATUS_OK, m1, [False])"
      and p2: "hmap_put [False] m1 1 30 = Inr (STATUS_OK, m2, [False])"
      and gg: "hmap_get m2 1 = Inr (\<lparr>item = Some (30::int), present = True, error = STATUS_OK\<rparr>, m2)"
      and bp': "bucket_pos map_two 1 = Inr pos"
      and fn': "find_node (key_cmp map_two) 1 (nodes (buckets map_two ! pos)) = Some i"
      and m1: "m1 = overwrite_entry map_two pos i 20"
      and m2: "m2 = overwrite_entry map_two pos i 30"
    by blast
  from bp bp' have "pos = 1" by simp
  with fn fn' have "i = 0" by simp
  with \<open>pos = 1\<close> m1 m2 o1 o2 have e: "m1 = ?m1" "m2 = ?m2" by simp_all
  from p1 p2 gg show ?thesis
    unfolding e using c g p by (simp add: STATUS_OK_def)
qed





text \<open>Both sample maps are built by the constructor and put.\<close>

lemma map_one_reachable:
  "\<exists>m0. hmap_new_cap [] itod_hash_func int_cmp 1 = Inr (opt_some m0, [])
        \<and> hmap_put [] m0 0 10 = Inr (STATUS_OK, map_one, [])"
  by (simp add: eval_defs map_one_def)

lemma map_two_reachable:
  "\<exists>m0 m1. hmap_new_cap [] itod_hash_func int_cmp 2 = Inr (opt_some m0, [])
        \<and> hmap_put [] m0 0 10 = Inr (STATUS_OK, m1, [])
        \<and> hmap_put [] m1 1 11 = Inr (STATUS_OK, map_two, [])"
  by (simp add: eval_defs map_two_def)

section \<open>Construction with capacity 0\<close>

text \<open>
  C3. \<^verbatim>\<open>_hmap_new_cap\<close> has no check of its capacity argument (\<^verbatim>\<open>_vec_new_cap\<close> of
  vec.h has one: \<^verbatim>\<open>if (!capacity) return OPT_NONE_ERR(..., ERROR_BAD_ARG)\<close>). Called
  with capacity 0 it returns, when \<^verbatim>\<open>malloc(0)\<close> gives a block, a present option that
  holds a map of capacity 0 with no bucket, and otherwise an empty option with
  \<^verbatim>\<open>ERROR_OUT_OF_MEM\<close>; in neither case is the error \<^verbatim>\<open>ERROR_BAD_ARG\<close>. Every put on
  the map it returned computes a remainder by zero.
\<close>

theorem new_cap_zero_capacity_accepted:
  "hmap_new_cap h hf cmp 0 =
     (if fst (malloc h)
      then Inr (opt_some \<lparr>buckets = [], size_hm = 0, capacity = 0,
                          hash_func = hf, key_cmp = cmp\<rparr>, snd (malloc h))
      else Inr (OPT_NONE_ERR ERROR_OUT_OF_MEM, snd (malloc h)))
   \<and> present (opt_some \<lparr>buckets = [], size_hm = 0, capacity = 0,
                          hash_func = hf, key_cmp = cmp\<rparr>)
   \<and> error (opt_some \<lparr>buckets = [], size_hm = 0, capacity = 0,
                          hash_func = hf, key_cmp = cmp\<rparr>) \<noteq> ERROR_BAD_ARG
   \<and> error (OPT_NONE_ERR ERROR_OUT_OF_MEM :: ('k, 'v) HashMap opt) \<noteq> ERROR_BAD_ARG
   \<and> hmap_put h' \<lparr>buckets = [], size_hm = 0, capacity = 0,
                    hash_func = hf, key_cmp = cmp\<rparr> k v = Inl DivisionByZero"
  by (cases h; cases "hd h")
     (simp_all add: hmap_new_cap_def INT_MAX_def opt_some_def OPT_NONE_ERR_def opt_none_def
        ERROR_BAD_ARG_def ERROR_OUT_OF_MEM_def hmap_put_def bucket_pos_def)

section \<open>The operations on a map that satisfies its invariant\<close>

text \<open>
  The lemmas of this section follow the operations on a map that satisfies \<open>map_ok\<close>,
  for keys whose hash is not negative. Where a resize re-inserts the entries they
  assume that each node it asks for is allocated.
\<close>

subsection \<open>A resize whose allocations are granted\<close>

lemma malloc_granted: "granted h \<Longrightarrow> malloc h = (True, tl h)"
  by (cases h) (auto simp: granted_def)

lemma granted_tl: "granted h \<Longrightarrow> granted (tl h)"
  by (cases h) (auto simp: granted_def)

lemma granted_drop: "granted h \<Longrightarrow> granted (drop n h)"
  by (simp add: granted_def list_all_iff) (meson in_set_dropD)

lemma ll_pushf_granted:
  "granted h \<Longrightarrow> chain_ok list \<Longrightarrow> ll_pushf h list x = (STATUS_OK, push_front x list, tl h)"
  by (auto simp: ll_pushf_def malloc_granted push_front_def chain_ok_def)

lemma chain_ok_push_front: "chain_ok list \<Longrightarrow> chain_ok (push_front x list)"
  by (simp add: chain_ok_def push_front_def)

lemma slot_bound: "1 \<le> cap \<Longrightarrow> slot hf cap e < nat cap"
  by (simp add: slot_def nat_less_iff)

lemma length_place_all [simp]: "length (place_all hf cap es bs) = length bs"
  by (induction es arbitrary: bs) simp_all

lemma chains_place_all:
  "\<forall>c \<in> set bs. chain_ok c \<Longrightarrow> \<forall>c \<in> set (place_all hf cap es bs). chain_ok c"
proof (induction es arbitrary: bs)
  case Nil
  then show ?case by simp
next
  case (Cons e es)
  have "\<forall>c \<in> set (bs[slot hf cap e := push_front e (bs ! slot hf cap e)]). chain_ok c"
  proof (cases "slot hf cap e < length bs")
    case True
    then have "chain_ok (bs ! slot hf cap e)" using Cons.prems by simp
    then have "chain_ok (push_front e (bs ! slot hf cap e))" by (rule chain_ok_push_front)
    with Cons.prems show ?thesis
      using set_update_subset_insert[of bs "slot hf cap e"] by blast
  next
    case False
    with Cons.prems show ?thesis by (simp add: list_update_beyond)
  qed
  then show ?case using Cons.IH by simp
qed

lemma move_entries_granted:
  assumes "granted h" and "1 \<le> cap" and "length bs = nat cap"
    and "\<forall>c \<in> set bs. chain_ok c" and "\<forall>e \<in> set (nodes b). 0 \<le> hf (key e)"
  shows "move_entries hf cap b bs h
           = Inr (place_all hf cap (nodes b) bs, drop (length (nodes b)) h)"
  using assms
proof (induction "nodes b" arbitrary: b bs h)
  case Nil
  then show ?case
    by (simp add: move_entries.simps[of hf cap b] ll_popf_Nil opt_none_def)
next
  case (Cons e es)
  from Cons.hyps(2) obtain b' where pop: "ll_popf b = (opt_some e, b')" and b': "nodes b' = es"
    using ll_popf_Cons[of b e es] by auto
  have nn: "0 \<le> hf (key e)" using Cons.prems(5) Cons.hyps(2)[symmetric] by simp
  have rem: "c_rem (hf (key e)) cap = hf (key e) mod cap"
    using nn Cons.prems(2) by (rule c_rem_nonneg)
  have sl: "slot hf cap e < length bs"
    using slot_bound[OF Cons.prems(2)] Cons.prems(3) by simp
  have pos: "0 < cap" using Cons.prems(2) by simp
  have range: "\<not> hf (key e) mod cap < 0" "\<not> int (length bs) \<le> hf (key e) mod cap"
    using pos Cons.prems(3) by (simp_all add: not_less not_le)
  have ok: "chain_ok (bs ! slot hf cap e)" using sl Cons.prems(4) by simp
  let ?bs' = "bs[slot hf cap e := push_front e (bs ! slot hf cap e)]"
  have ch: "\<forall>c \<in> set ?bs'. chain_ok c"
    using chains_place_all[OF Cons.prems(4), of hf cap "[e]"] by simp
  have rec: "move_entries hf cap b' ?bs' (tl h)
               = Inr (place_all hf cap (nodes b') ?bs', drop (length (nodes b')) (tl h))"
    using Cons.hyps(1)[OF b'[symmetric] granted_tl[OF Cons.prems(1)] Cons.prems(2) _ ch]
      Cons.prems(3,5) Cons.hyps(2)[symmetric] b' by simp
  have "move_entries hf cap b bs h = move_entries hf cap b' ?bs' (tl h)"
    using pos range ll_pushf_granted[OF Cons.prems(1) ok, of e]
    by (subst move_entries.simps[of hf cap b])
       (simp add: pop opt_some_def rem Let_def slot_def)
  with rec show ?case
    by (simp add: b' Cons.hyps(2)[symmetric] drop_Suc)
qed

lemma place_all_append:
  "place_all hf cap (xs @ ys) bs = place_all hf cap ys (place_all hf cap xs bs)"
  by (induction xs arbitrary: bs) simp_all

lemma move_buckets_granted:
  assumes "granted h" and "1 \<le> cap'" and "length bs = nat cap'"
    and "\<forall>c \<in> set bs. chain_ok c" and "int (length olds) = cap"
    and "\<forall>b \<in> set olds. \<forall>e \<in> set (nodes b). 0 \<le> hf (key e)"
    and "0 \<le> i" and "i \<le> cap"
  shows "move_buckets hf cap' cap olds i bs h
           = Inr (place_all hf cap' (concat (map nodes (drop (nat i) olds))) bs,
                  drop (length (concat (map nodes (drop (nat i) olds)))) h)"
  using assms
proof (induction "nat (cap - i)" arbitrary: i bs h)
  case 0
  then have "i = cap" by simp
  with "0.prems"(5) show ?case
    by (subst move_buckets.simps) simp
next
  case (Suc n)
  then have lt: "i < cap" by linarith
  with Suc.prems(5,7) have il: "nat i < length olds" by linarith
  let ?b = "olds ! nat i"
  have mem: "?b \<in> set olds" using il by simp
  then have nn: "\<forall>e \<in> set (nodes ?b). 0 \<le> hf (key e)" using Suc.prems(6) by blast
  let ?bs' = "place_all hf cap' (nodes ?b) bs"
  let ?h' = "drop (length (nodes ?b)) h"
  have me: "move_entries hf cap' ?b bs h = Inr (?bs', ?h')"
    by (rule move_entries_granted[OF Suc.prems(1,2,3,4) nn])
  have n: "n = nat (cap - (i + 1))" using Suc.hyps(2) by linarith
  have rec: "move_buckets hf cap' cap olds (i + 1) ?bs' ?h'
       = Inr (place_all hf cap' (concat (map nodes (drop (nat (i + 1)) olds))) ?bs',
              drop (length (concat (map nodes (drop (nat (i + 1)) olds)))) ?h')"
    using Suc.hyps(1)[OF n granted_drop[OF Suc.prems(1)] Suc.prems(2) _
        chains_place_all[OF Suc.prems(4)] Suc.prems(5,6)] Suc.prems(3,7) lt
    by simp
  have suc: "nat (i + 1) = Suc (nat i)" using Suc.prems(7) by simp
  have dr: "drop (nat i) olds = ?b # drop (Suc (nat i)) olds"
    using il by (simp add: Cons_nth_drop_Suc)
  have "move_buckets hf cap' cap olds i bs h = move_buckets hf cap' cap olds (i + 1) ?bs' ?h'"
    using lt Suc.prems(5,7) il
    by (subst move_buckets.simps[of hf cap' cap olds i]) (simp add: me)
  with rec[unfolded suc] show ?case
    by (simp add: dr place_all_append add.commute)
qed

lemma placed_nonneg:
  "placed hmap \<Longrightarrow> \<forall>b \<in> set (buckets hmap). \<forall>e \<in> set (nodes b). 0 \<le> hash_func hmap (key e)"
proof (intro ballI)
  fix b e
  assume p: "placed hmap" and b: "b \<in> set (buckets hmap)" and e: "e \<in> set (nodes b)"
  from b obtain i where "i < length (buckets hmap)" "buckets hmap ! i = b"
    by (auto simp: in_set_conv_nth)
  with p e show "0 \<le> hash_func hmap (key e)" by (auto simp: placed_def)
qed

lemma resize_granted:
  assumes "granted h" and "array_ok hmap" and "placed hmap"
    and "2 * capacity hmap \<le> INT_MAX"
  shows "resize h hmap =
     Inr (STATUS_OK,
          hmap\<lparr>buckets := place_all (hash_func hmap) (2 * capacity hmap) (entries hmap)
                             (replicate (nat (2 * capacity hmap)) ll_new),
               capacity := 2 * capacity hmap\<rparr>,
          drop (Suc (length (entries hmap))) h)"
proof -
  from assms(2) have cap: "1 \<le> capacity hmap" and len: "int (length (buckets hmap)) = capacity hmap"
    by (simp_all add: array_ok_def)
  have c2: "1 \<le> 2 * capacity hmap" using cap by simp
  have fresh: "\<forall>c \<in> set (replicate (nat (2 * capacity hmap)) (ll_new :: ('a, 'b) HMapEntry LinkedList)). chain_ok c"
    by (simp add: chain_ok_def ll_new_def)
  have mb: "move_buckets (hash_func hmap) (2 * capacity hmap) (capacity hmap) (buckets hmap) 0
              (replicate (nat (2 * capacity hmap)) ll_new) (tl h)
            = Inr (place_all (hash_func hmap) (2 * capacity hmap) (entries hmap)
                     (replicate (nat (2 * capacity hmap)) ll_new),
                   drop (length (entries hmap)) (tl h))"
    using move_buckets_granted[OF granted_tl[OF assms(1)] c2 _ fresh len placed_nonneg[OF assms(3)],
        of 0] cap
    by (simp add: entries_def)
  show ?thesis
    using assms(4) mb
    by (simp add: resize_def malloc_granted[OF assms(1)] HASHMAP_GROWTH_FACTOR_def Let_def
          drop_Suc)
qed

subsection \<open>The new bucket array\<close>

lemma nodes_place_all:
  "j < length bs \<Longrightarrow>
   nodes (place_all hf cap es bs ! j) = rev (filter (\<lambda>e. slot hf cap e = j) es) @ nodes (bs ! j)"
proof (induction es arbitrary: bs)
  case Nil
  then show ?case by simp
next
  case (Cons e es)
  let ?bs' = "bs[slot hf cap e := push_front e (bs ! slot hf cap e)]"
  have "nodes (place_all hf cap es ?bs' ! j)
          = rev (filter (\<lambda>e. slot hf cap e = j) es) @ nodes (?bs' ! j)"
    using Cons.IH[of ?bs'] Cons.prems by simp
  moreover have "nodes (?bs' ! j) = (if slot hf cap e = j then e # nodes (bs ! j) else nodes (bs ! j))"
    using Cons.prems by (auto simp: push_front_def nth_list_update)
  ultimately show ?case by simp
qed

lemma sum_list_map_update:
  "j < length bs \<Longrightarrow> sum_list (map f (bs[j := x])) = sum_list (map f bs) - f (bs ! j) + (f x :: int)"
  by (induction bs arbitrary: j) (auto split: nat.splits)

lemma count_sum_place_all:
  "\<forall>e \<in> set es. slot hf cap e < length bs \<Longrightarrow>
   sum_list (map length_ll (place_all hf cap es bs)) = sum_list (map length_ll bs) + int (length es)"
proof (induction es arbitrary: bs)
  case Nil
  then show ?case by simp
next
  case (Cons e es)
  let ?bs' = "bs[slot hf cap e := push_front e (bs ! slot hf cap e)]"
  have "sum_list (map length_ll ?bs') = sum_list (map length_ll bs) + 1"
    using Cons.prems by (simp add: sum_list_map_update push_front_def)
  moreover have "sum_list (map length_ll (place_all hf cap es ?bs'))
                   = sum_list (map length_ll ?bs') + int (length es)"
    using Cons.IH[of ?bs'] Cons.prems by simp
  ultimately show ?case by simp
qed

lemma mset_concat_update:
  "j < length bs \<Longrightarrow> nodes x = e # nodes (bs ! j) \<Longrightarrow>
   mset (concat (map nodes (bs[j := x]))) = add_mset e (mset (concat (map nodes bs)))"
  by (induction bs arbitrary: j) (auto split: nat.splits)

lemma mset_place_all:
  "\<forall>e \<in> set es. slot hf cap e < length bs \<Longrightarrow>
   mset (concat (map nodes (place_all hf cap es bs))) = mset es + mset (concat (map nodes bs))"
proof (induction es arbitrary: bs)
  case Nil
  then show ?case by simp
next
  case (Cons e es)
  let ?bs' = "bs[slot hf cap e := push_front e (bs ! slot hf cap e)]"
  have "mset (concat (map nodes ?bs')) = add_mset e (mset (concat (map nodes bs)))"
    using Cons.prems by (intro mset_concat_update) (simp_all add: push_front_def)
  moreover have "mset (concat (map nodes (place_all hf cap es ?bs')))
                   = mset es + mset (concat (map nodes ?bs'))"
    using Cons.IH[of ?bs'] Cons.prems by simp
  ultimately show ?case by simp
qed

lemma keys_unique_iff:
  assumes "\<forall>a. cmp a a"
  shows "keys_unique cmp es \<longleftrightarrow>
     distinct es \<and> (\<forall>e1 \<in> set es. \<forall>e2 \<in> set es. cmp (key e1) (key e2) \<longrightarrow> e1 = e2)"
  using assms by (induction es) (auto simp: list_all_iff)

lemma keys_unique_mset:
  assumes "\<forall>a. cmp a a" and "mset es' = mset es"
  shows "keys_unique cmp es' = keys_unique cmp es"
  using mset_eq_setD[OF assms(2)] mset_eq_imp_distinct_iff[OF assms(2)]
  by (simp add: keys_unique_iff[where cmp = cmp, OF assms(1)])

subsection \<open>Lookup in terms of the entries\<close>

lemma entries_bucket:
  "e \<in> set (entries hmap) \<longleftrightarrow> (\<exists>i < length (buckets hmap). e \<in> set (nodes (buckets hmap ! i)))"
proof
  assume "e \<in> set (entries hmap)"
  then obtain b where "b \<in> set (buckets hmap)" "e \<in> set (nodes b)"
    by (auto simp: entries_def)
  then show "\<exists>i < length (buckets hmap). e \<in> set (nodes (buckets hmap ! i))"
    by (metis in_set_conv_nth)
next
  assume "\<exists>i < length (buckets hmap). e \<in> set (nodes (buckets hmap ! i))"
  then obtain i where "i < length (buckets hmap)" "e \<in> set (nodes (buckets hmap ! i))" by blast
  then show "e \<in> set (entries hmap)"
    using nth_mem[of i "buckets hmap"] by (auto simp: entries_def)
qed

lemma placed_bucket:
  assumes "placed hmap" and "e \<in> set (entries hmap)"
  shows "0 \<le> hash_func hmap (key e)"
    and "nat (hash_func hmap (key e) mod capacity hmap) < length (buckets hmap)"
    and "e \<in> set (nodes (buckets hmap ! nat (hash_func hmap (key e) mod capacity hmap)))"
proof -
  from assms(2) obtain i where i: "i < length (buckets hmap)" "e \<in> set (nodes (buckets hmap ! i))"
    by (auto simp: entries_bucket)
  with assms(1) have "0 \<le> hash_func hmap (key e)"
    and "nat (hash_func hmap (key e) mod capacity hmap) = i"
    by (auto simp: placed_def)
  with i show "0 \<le> hash_func hmap (key e)"
    and "nat (hash_func hmap (key e) mod capacity hmap) < length (buckets hmap)"
    and "e \<in> set (nodes (buckets hmap ! nat (hash_func hmap (key e) mod capacity hmap)))"
    by simp_all
qed

lemma matching_in_bucket:
  assumes "placed hmap" and "strategies_ok hmap" and "e \<in> set (entries hmap)"
    and "key_cmp hmap (key e) k"
  shows "e \<in> set (nodes (buckets hmap ! nat (hash_func hmap k mod capacity hmap)))"
proof -
  from assms(2,4) have "hash_func hmap (key e) = hash_func hmap k"
    unfolding strategies_ok_def by blast
  with placed_bucket(3)[OF assms(1,3)] show ?thesis by simp
qed

lemma get_present_iff:
  assumes "array_ok hmap" and "placed hmap" and "strategies_ok hmap"
    and "keys_unique (key_cmp hmap) (entries hmap)" and "0 \<le> hash_func hmap k"
  shows "hmap_get hmap k = Inr (opt_some v, hmap)
           \<longleftrightarrow> (\<exists>e \<in> set (entries hmap). key_cmp hmap (key e) k \<and> val e = v)"
proof -
  let ?pos = "nat (hash_func hmap k mod capacity hmap)"
  let ?ns = "nodes (buckets hmap ! ?pos)"
  have pos: "bucket_pos hmap k = Inr ?pos" and plen: "?pos < length (buckets hmap)"
    using bucket_pos_nonneg[OF assms(1,5)] by simp_all
  have sub: "set ?ns \<subseteq> set (entries hmap)"
    using plen by (auto simp: entries_bucket)
  from assms(3) have refl: "\<forall>a. key_cmp hmap a a"
    and sym: "\<And>a b. key_cmp hmap a b \<Longrightarrow> key_cmp hmap b a"
    and trans: "\<And>a b c. key_cmp hmap a b \<Longrightarrow> key_cmp hmap b c \<Longrightarrow> key_cmp hmap a c"
    unfolding strategies_ok_def by blast+
  have uniq: "\<And>e1 e2. e1 \<in> set (entries hmap) \<Longrightarrow> e2 \<in> set (entries hmap) \<Longrightarrow>
                key_cmp hmap (key e1) (key e2) \<Longrightarrow> e1 = e2"
    using assms(4) keys_unique_iff[where cmp = "key_cmp hmap", OF refl] by blast
  show ?thesis
  proof
    assume "hmap_get hmap k = Inr (opt_some v, hmap)"
    then obtain i where i: "find_node (key_cmp hmap) k ?ns = Some i" and v: "val (?ns ! i) = v"
      by (auto simp: hmap_get_def pos opt_some_def opt_none_def split: option.splits)
    from find_node_Some[OF i] have "?ns ! i \<in> set ?ns" "key_cmp hmap (key (?ns ! i)) k"
      by simp_all
    with sub v show "\<exists>e \<in> set (entries hmap). key_cmp hmap (key e) k \<and> val e = v" by blast
  next
    assume "\<exists>e \<in> set (entries hmap). key_cmp hmap (key e) k \<and> val e = v"
    then obtain e where e: "e \<in> set (entries hmap)" "key_cmp hmap (key e) k" "val e = v"
      by blast
    have "e \<in> set ?ns" by (rule matching_in_bucket[OF assms(2,3) e(1,2)])
    with e(2) have "find_node (key_cmp hmap) k ?ns \<noteq> None"
      by (auto simp: find_node_None)
    then obtain i where i: "find_node (key_cmp hmap) k ?ns = Some i" by blast
    from find_node_Some[OF i] have m: "?ns ! i \<in> set ?ns" "key_cmp hmap (key (?ns ! i)) k"
      by simp_all
    have "key_cmp hmap (key (?ns ! i)) (key e)"
      using m(2) sym[OF e(2)] by (rule trans)
    with m(1) sub e(1) have "?ns ! i = e" using uniq by blast
    with i e(3) show "hmap_get hmap k = Inr (opt_some v, hmap)"
      by (simp add: hmap_get_def pos)
  qed
qed

lemma get_absent_iff:
  assumes "array_ok hmap" and "placed hmap" and "strategies_ok hmap"
    and "0 \<le> hash_func hmap k"
  shows "hmap_get hmap k = Inr (opt_none, hmap) \<longleftrightarrow> key_absent hmap k"
proof -
  let ?pos = "nat (hash_func hmap k mod capacity hmap)"
  let ?ns = "nodes (buckets hmap ! ?pos)"
  have pos: "bucket_pos hmap k = Inr ?pos" and plen: "?pos < length (buckets hmap)"
    using bucket_pos_nonneg[OF assms(1,4)] by simp_all
  have sub: "set ?ns \<subseteq> set (entries hmap)"
    using plen by (auto simp: entries_bucket)
  have "hmap_get hmap k = Inr (opt_none, hmap) \<longleftrightarrow> find_node (key_cmp hmap) k ?ns = None"
    by (auto simp: hmap_get_def pos opt_some_def opt_none_def split: option.splits)
  also have "\<dots> \<longleftrightarrow> (\<forall>e \<in> set ?ns. \<not> key_cmp hmap (key e) k)"
    by (rule find_node_None)
  also have "\<dots> \<longleftrightarrow> key_absent hmap k"
    using sub matching_in_bucket[OF assms(2,3)] by (auto simp: key_absent_def)
  finally show ?thesis .
qed

subsection \<open>A granted resize keeps the invariant and the entries\<close>

lemma count_sum_length:
  "\<forall>c \<in> set bs. chain_ok c \<Longrightarrow>
   sum_list (map length_ll bs) = int (length (concat (map nodes bs)))"
  by (induction bs) (simp_all add: chain_ok_def)

lemma chain_count_sum_entries:
  "chains_ok hmap \<Longrightarrow> chain_count_sum hmap = int (length (entries hmap))"
  by (simp add: chains_ok_def chain_count_sum_def entries_def count_sum_length)

lemma resize_granted_ok:
  assumes "granted h" and "map_ok hmap" and "2 * capacity hmap \<le> INT_MAX"
  shows "\<exists>hmap'. resize h hmap = Inr (STATUS_OK, hmap', drop (Suc (length (entries hmap))) h)
           \<and> capacity hmap' = 2 * capacity hmap \<and> size_hm hmap' = size_hm hmap
           \<and> hash_func hmap' = hash_func hmap \<and> key_cmp hmap' = key_cmp hmap
           \<and> mset (entries hmap') = mset (entries hmap) \<and> map_ok hmap'"
proof -
  from assms(2) have arr: "array_ok hmap" and chn: "chains_ok hmap" and plc: "placed hmap"
    and str: "strategies_ok hmap" and siz: "size_hm hmap = chain_count_sum hmap"
    and unq: "keys_unique (key_cmp hmap) (entries hmap)"
    by (simp_all add: map_ok_def size_and_keys_inv_def)
  let ?hf = "hash_func hmap"
  let ?c = "2 * capacity hmap"
  let ?fresh = "replicate (nat ?c) (ll_new :: ('a, 'b) HMapEntry LinkedList)"
  let ?nb = "place_all ?hf ?c (entries hmap) ?fresh"
  let ?m = "hmap\<lparr>buckets := ?nb, capacity := ?c\<rparr>"
  from arr have cap: "1 \<le> capacity hmap" by (simp add: array_ok_def)
  then have c1: "1 \<le> ?c" by simp
  have fresh: "\<forall>c \<in> set ?fresh. chain_ok c" by (simp add: chain_ok_def ll_new_def)
  have slots: "\<forall>e \<in> set (entries hmap). slot ?hf ?c e < length ?fresh"
    by (simp add: slot_bound[OF c1])
  have r: "resize h hmap = Inr (STATUS_OK, ?m, drop (Suc (length (entries hmap))) h)"
    by (rule resize_granted[OF assms(1) arr plc assms(3)])
  have a': "array_ok ?m" using c1 by (simp add: array_ok_def)
  have ch': "chains_ok ?m"
    using chains_place_all[OF fresh] by (simp add: chains_ok_def)
  have ms: "mset (entries ?m) = mset (entries hmap)"
    using mset_place_all[OF slots] by (simp add: entries_def ll_new_def)
  have p': "placed ?m"
    unfolding placed_def
  proof (intro allI impI ballI)
    fix j e
    assume j: "j < length (buckets ?m)" and e: "e \<in> set (nodes (buckets ?m ! j))"
    from j have "nodes (?nb ! j) = rev (filter (\<lambda>e. slot ?hf ?c e = j) (entries hmap)) @ nodes (?fresh ! j)"
      by (intro nodes_place_all) simp
    with j e have "e \<in> set (entries hmap)" and "slot ?hf ?c e = j"
      by (simp_all add: ll_new_def)
    with placed_bucket(1)[OF plc]
    show "0 \<le> hash_func ?m (key e) \<and> nat (hash_func ?m (key e) mod capacity ?m) = j"
      by (simp add: slot_def)
  qed
  have "sum_list (map length_ll ?nb) = sum_list (map length_ll ?fresh) + int (length (entries hmap))"
    by (rule count_sum_place_all[OF slots])
  also have "sum_list (map length_ll ?fresh) = 0"
    by (simp add: ll_new_def sum_list_replicate)
  finally have s': "size_hm ?m = chain_count_sum ?m"
    using siz chain_count_sum_entries[OF chn] by (simp add: chain_count_sum_def)
  from str have refl: "\<forall>a. key_cmp hmap a a" unfolding strategies_ok_def by blast
  have u': "keys_unique (key_cmp ?m) (entries ?m)"
    using keys_unique_mset[where cmp = "key_cmp hmap", OF refl ms] unq by simp
  have "strategies_ok ?m = strategies_ok hmap" by (simp add: strategies_ok_def)
  with str have st': "strategies_ok ?m" by blast
  have "map_ok ?m"
    using a' ch' p' st' s' u' by (simp add: map_ok_def size_and_keys_inv_def)
  with r ms show ?thesis by (intro exI[of _ ?m]) simp
qed

lemma lookups_by_entries:
  assumes "map_ok m1" and "map_ok m2" and "set (entries m2) = set (entries m1)"
    and "hash_func m2 = hash_func m1" and "key_cmp m2 = key_cmp m1"
    and "0 \<le> hash_func m1 k"
  shows "hmap_get m2 k = Inr (opt_some v, m2) \<longleftrightarrow> hmap_get m1 k = Inr (opt_some v, m1)"
    and "hmap_get m2 k = Inr (opt_none, m2) \<longleftrightarrow> hmap_get m1 k = Inr (opt_none, m1)"
proof -
  from assms(1) have 1: "array_ok m1" "placed m1" "strategies_ok m1"
    "keys_unique (key_cmp m1) (entries m1)"
    by (simp_all add: map_ok_def size_and_keys_inv_def)
  from assms(2) have 2: "array_ok m2" "placed m2" "strategies_ok m2"
    "keys_unique (key_cmp m2) (entries m2)"
    by (simp_all add: map_ok_def size_and_keys_inv_def)
  have k2: "0 \<le> hash_func m2 k" using assms(4,6) by simp
  show "hmap_get m2 k = Inr (opt_some v, m2) \<longleftrightarrow> hmap_get m1 k = Inr (opt_some v, m1)"
    unfolding get_present_iff[OF 1 assms(6)] get_present_iff[OF 2 k2]
    by (simp add: assms(3,5))
  show "hmap_get m2 k = Inr (opt_none, m2) \<longleftrightarrow> hmap_get m1 k = Inr (opt_none, m1)"
    unfolding get_absent_iff[OF 1(1,2,3) assms(6)] get_absent_iff[OF 2(1,2,3) k2]
    by (simp add: key_absent_def assms(3,5))
qed

subsection \<open>Put of a new key\<close>

text \<open>
  With the node allocated, put of a key that matches no entry of its chain appends
  the entry and counts it, and resizes exactly when the size has become
  \<open>capacity + 1\<close>.
\<close>

lemma put_insert:
  assumes "bucket_pos hmap k = Inr pos" and "chain_ok (buckets hmap ! pos)"
    and "find_node (key_cmp hmap) k (nodes (buckets hmap ! pos)) = None"
    and "malloc h = (True, h')"
  shows "hmap_put h hmap k v =
           (if size_hm hmap + 1 = capacity hmap + 1 then resize h' (insert_entry hmap pos k v)
            else Inr (STATUS_OK, insert_entry hmap pos k v, h'))"
proof -
  have scan: "put_scan (key_cmp hmap) k v (nodes (buckets hmap ! pos)) = None"
    using assms(3) by (rule put_scan_missing)
  have wrap: "(case r of Inl u \<Rightarrow> Inl u
                | Inr (err, m, a) \<Rightarrow> if err \<noteq> 0 then Inr (err, m, a) else Inr (STATUS_OK, m, a)) = r"
    for r :: "ub + (StatusCode \<times> ('a, 'b) HashMap \<times> allocator)"
    by (cases r) (auto simp: STATUS_OK_def)
  show ?thesis
  proof (cases "nodes (buckets hmap ! pos) = []")
    case True
    with assms(2) have "length_ll (buckets hmap ! pos) = 0" by (simp add: chain_ok_def)
    with True show ?thesis
      using assms(1,4)
      by (simp add: hmap_put_def Let_def ll_pushb_def insert_entry_def STATUS_OK_def wrap
            del: list_update_id)
  next
    case False
    with assms(2) have "length_ll (buckets hmap ! pos) \<noteq> 0" by (simp add: chain_ok_def)
    with False show ?thesis
      using assms(1,4) scan
      by (simp add: hmap_put_def Let_def ll_pushb_def insert_entry_def STATUS_OK_def)
  qed
qed

lemma put_node_alloc_failure:
  assumes "bucket_pos hmap k = Inr pos" and "chain_ok (buckets hmap ! pos)"
    and "find_node (key_cmp hmap) k (nodes (buckets hmap ! pos)) = None"
    and "malloc h = (False, h')"
  shows "hmap_put h hmap k v = Inr (ERROR_OUT_OF_MEM, hmap, h')"
proof -
  have scan: "put_scan (key_cmp hmap) k v (nodes (buckets hmap ! pos)) = None"
    using assms(3) by (rule put_scan_missing)
  have oom: "ERROR_OUT_OF_MEM \<noteq> (0 :: StatusCode)" by (simp add: ERROR_OUT_OF_MEM_def)
  show ?thesis
    using assms(1,4) scan oom
    by (simp add: hmap_put_def Let_def ll_pushb_def)
qed

lemma concat_nodes_nth:
  "pos < length bs \<Longrightarrow>
   concat (map nodes bs)
     = concat (map nodes (take pos bs)) @ nodes (bs ! pos) @ concat (map nodes (drop (Suc pos) bs))"
  using id_take_nth_drop[of pos bs] by (metis concat.simps(2) concat_append list.simps(9) map_append)

lemma concat_nodes_update:
  "pos < length bs \<Longrightarrow>
   concat (map nodes (bs[pos := x]))
     = concat (map nodes (take pos bs)) @ nodes x @ concat (map nodes (drop (Suc pos) bs))"
  by (simp add: upd_conv_take_nth_drop)

lemma chains_ok_update:
  assumes "chains_ok hmap" and "chain_ok x" and "buckets hmap' = (buckets hmap)[pos := x]"
  shows "chains_ok hmap'"
  using assms set_update_subset_insert[of "buckets hmap" pos x]
  by (auto simp: chains_ok_def)

lemma chain_count_sum_update:
  assumes "pos < length (buckets hmap)" and "buckets hmap' = (buckets hmap)[pos := x]"
  shows "chain_count_sum hmap' = chain_count_sum hmap - length_ll (buckets hmap ! pos) + length_ll x"
  using assms by (simp add: chain_count_sum_def sum_list_map_update)

lemma placed_update:
  assumes "placed hmap" and "buckets hmap' = (buckets hmap)[pos := x]"
    and "capacity hmap' = capacity hmap" and "hash_func hmap' = hash_func hmap"
    and "\<forall>e \<in> set (nodes x). e \<in> set (nodes (buckets hmap ! pos))
           \<or> (0 \<le> hash_func hmap (key e) \<and> nat (hash_func hmap (key e) mod capacity hmap) = pos)"
  shows "placed hmap'"
  unfolding placed_def
proof (intro allI impI ballI)
  fix i e
  assume i: "i < length (buckets hmap')" and e: "e \<in> set (nodes (buckets hmap' ! i))"
  from i have i': "i < length (buckets hmap)" by (simp add: assms(2))
  show "0 \<le> hash_func hmap' (key e) \<and> nat (hash_func hmap' (key e) mod capacity hmap') = i"
  proof (cases "i = pos")
    case True
    with e i' have "e \<in> set (nodes x)" by (simp add: assms(2))
    with assms(5) have "e \<in> set (nodes (buckets hmap ! pos))
           \<or> (0 \<le> hash_func hmap (key e) \<and> nat (hash_func hmap (key e) mod capacity hmap) = pos)"
      by blast
    with assms(1) i' True show ?thesis
      by (auto simp: placed_def assms(3,4))
  next
    case False
    with e have "e \<in> set (nodes (buckets hmap ! i))" by (simp add: assms(2))
    with assms(1) i' show ?thesis by (auto simp: placed_def assms(3,4))
  qed
qed

lemma keys_unique_snoc:
  "keys_unique cmp (xs @ y # ys) \<longleftrightarrow>
     keys_unique cmp (xs @ ys)
     \<and> list_all (\<lambda>e'. \<not> cmp (key y) (key e') \<and> \<not> cmp (key e') (key y)) (xs @ ys)"
  by (induction xs) (auto simp: list_all_iff)

lemma insert_entry_ok:
  assumes "map_ok hmap" and "bucket_pos hmap k = Inr pos" and "0 \<le> hash_func hmap k"
    and "find_node (key_cmp hmap) k (nodes (buckets hmap ! pos)) = None"
  shows "map_ok (insert_entry hmap pos k v)"
    and "set (entries (insert_entry hmap pos k v)) = insert \<lparr>key = k, val = v\<rparr> (set (entries hmap))"
proof -
  let ?m = "insert_entry hmap pos k v"
  let ?b = "buckets hmap ! pos"
  let ?x = "?b\<lparr>nodes := nodes ?b @ [\<lparr>key = k, val = v\<rparr>], length_ll := length_ll ?b + 1\<rparr>"
  from assms(1) have arr: "array_ok hmap" and chn: "chains_ok hmap" and plc: "placed hmap"
    and str: "strategies_ok hmap" and siz: "size_hm hmap = chain_count_sum hmap"
    and unq: "keys_unique (key_cmp hmap) (entries hmap)"
    by (simp_all add: map_ok_def size_and_keys_inv_def)
  have plen: "pos < length (buckets hmap)" using assms(2) by (rule bucket_pos_bound)
  have posv: "pos = nat (hash_func hmap k mod capacity hmap)"
    using bucket_pos_nonneg(1)[OF arr assms(3)] assms(2) by simp
  have bk: "buckets ?m = (buckets hmap)[pos := ?x]" by (simp add: insert_entry_def)
  have cb: "chain_ok ?b" using chn plen by (simp add: chains_ok_def)
  have absent: "key_absent hmap k"
  proof -
    have "hmap_get hmap k = Inr (opt_none, hmap)"
      by (simp add: hmap_get_def assms(2,4))
    then show ?thesis using get_absent_iff[OF arr plc str assms(3)] by simp
  qed
  have a': "array_ok ?m" using arr by (simp add: array_ok_def insert_entry_def)
  have c': "chains_ok ?m"
    using cb by (intro chains_ok_update[OF chn _ bk]) (simp add: chain_ok_def)
  have p': "placed ?m"
    using posv assms(3) by (intro placed_update[OF plc bk]) (auto simp: insert_entry_def)
  have "strategies_ok ?m = strategies_ok hmap" by (simp add: strategies_ok_def insert_entry_def)
  with str have st': "strategies_ok ?m" by blast
  have s': "size_hm ?m = chain_count_sum ?m"
    using chain_count_sum_update[OF plen bk] siz by (simp add: insert_entry_def)
  let ?A = "concat (map nodes (take pos (buckets hmap)))"
  let ?B = "concat (map nodes (drop (Suc pos) (buckets hmap)))"
  have e0: "entries hmap = ?A @ nodes ?b @ ?B"
    unfolding entries_def by (rule concat_nodes_nth[OF plen])
  have e1: "entries ?m = (?A @ nodes ?b) @ \<lparr>key = k, val = v\<rparr> # ?B"
    unfolding entries_def bk by (simp add: concat_nodes_update[OF plen])
  from str have sym: "\<And>a b. key_cmp hmap a b = key_cmp hmap b a"
    unfolding strategies_ok_def by blast
  have "list_all (\<lambda>e'. \<not> key_cmp hmap k (key e') \<and> \<not> key_cmp hmap (key e') k) (entries hmap)"
    using absent sym by (simp add: key_absent_def list_all_iff)
  then have u': "keys_unique (key_cmp ?m) (entries ?m)"
    using unq unfolding e1 keys_unique_snoc by (simp add: e0 insert_entry_def)
  show "map_ok ?m"
    using a' c' p' st' s' u' by (simp add: map_ok_def size_and_keys_inv_def)
  show "set (entries ?m) = insert \<lparr>key = k, val = v\<rparr> (set (entries hmap))"
    unfolding e1 e0 by auto
qed

lemma key_absent_bucket:
  assumes "key_absent hmap k" and "pos < length (buckets hmap)"
  shows "find_node (key_cmp hmap) k (nodes (buckets hmap ! pos)) = None"
  using assms by (auto simp: find_node_None key_absent_def entries_bucket)

lemma put_new_key_granted:
  assumes "map_ok hmap" and "0 \<le> hash_func hmap k" and "key_absent hmap k"
    and "granted h" and "2 * capacity hmap \<le> INT_MAX"
  shows "\<exists>hmap' h'. hmap_put h hmap k v = Inr (STATUS_OK, hmap', h') \<and> map_ok hmap'
           \<and> size_hm hmap' = size_hm hmap + 1
           \<and> capacity hmap'
               = (if size_hm hmap + 1 = capacity hmap + 1 then 2 * capacity hmap else capacity hmap)
           \<and> hash_func hmap' = hash_func hmap \<and> key_cmp hmap' = key_cmp hmap
           \<and> set (entries hmap') = insert \<lparr>key = k, val = v\<rparr> (set (entries hmap))"
proof -
  from assms(1) have arr: "array_ok hmap" and chn: "chains_ok hmap"
    by (simp_all add: map_ok_def)
  let ?pos = "nat (hash_func hmap k mod capacity hmap)"
  have pos: "bucket_pos hmap k = Inr ?pos" and plen: "?pos < length (buckets hmap)"
    using bucket_pos_nonneg[OF arr assms(2)] by simp_all
  have none: "find_node (key_cmp hmap) k (nodes (buckets hmap ! ?pos)) = None"
    by (rule key_absent_bucket[OF assms(3) plen])
  have cb: "chain_ok (buckets hmap ! ?pos)" using chn plen by (simp add: chains_ok_def)
  let ?m = "insert_entry hmap ?pos k v"
  have ok: "map_ok ?m"
    and es: "set (entries ?m) = insert \<lparr>key = k, val = v\<rparr> (set (entries hmap))"
    using insert_entry_ok[OF assms(1) pos assms(2) none] by simp_all
  have put: "hmap_put h hmap k v =
           (if size_hm hmap + 1 = capacity hmap + 1 then resize (tl h) ?m
            else Inr (STATUS_OK, ?m, tl h))"
    by (rule put_insert[OF pos cb none malloc_granted[OF assms(4)]])
  have same: "size_hm ?m = size_hm hmap + 1" "capacity ?m = capacity hmap"
    "hash_func ?m = hash_func hmap" "key_cmp ?m = key_cmp hmap"
    by (simp_all add: insert_entry_def)
  show ?thesis
  proof (cases "size_hm hmap + 1 = capacity hmap + 1")
    case False
    with put ok es same show ?thesis by auto
  next
    case True
    have "2 * capacity ?m \<le> INT_MAX" using assms(5) same by simp
    from resize_granted_ok[OF granted_tl[OF assms(4)] ok this]
    obtain m' where r: "resize (tl h) ?m = Inr (STATUS_OK, m', drop (Suc (length (entries ?m))) (tl h))"
      and m': "capacity m' = 2 * capacity ?m" "size_hm m' = size_hm ?m"
        "hash_func m' = hash_func ?m" "key_cmp m' = key_cmp ?m"
        "mset (entries m') = mset (entries ?m)" "map_ok m'"
      by blast
    have "set (entries m') = set (entries ?m)" using m'(5) by (rule mset_eq_setD)
    with True put r m' es same show ?thesis by auto
  qed
qed

lemma put_new_key_lookups:
  assumes "map_ok hmap" and "map_ok hmap'"
    and "hash_func hmap' = hash_func hmap" and "key_cmp hmap' = key_cmp hmap"
    and "set (entries hmap') = insert \<lparr>key = k, val = v\<rparr> (set (entries hmap))"
    and "0 \<le> hash_func hmap k"
  shows "hmap_get hmap' k = Inr (opt_some v, hmap')"
    and "0 \<le> hash_func hmap k' \<Longrightarrow> hmap_get hmap k' = Inr (opt_some v', hmap)
           \<Longrightarrow> hmap_get hmap' k' = Inr (opt_some v', hmap')"
proof -
  from assms(1) have 1: "array_ok hmap" "placed hmap" "strategies_ok hmap"
    "keys_unique (key_cmp hmap) (entries hmap)"
    by (simp_all add: map_ok_def size_and_keys_inv_def)
  from assms(2) have 2: "array_ok hmap'" "placed hmap'" "strategies_ok hmap'"
    "keys_unique (key_cmp hmap') (entries hmap')"
    by (simp_all add: map_ok_def size_and_keys_inv_def)
  from 1(3) have refl: "key_cmp hmap k k" unfolding strategies_ok_def by blast
  have k2: "0 \<le> hash_func hmap' k" using assms(3,6) by simp
  show "hmap_get hmap' k = Inr (opt_some v, hmap')"
    unfolding get_present_iff[OF 2 k2] using refl by (auto simp: assms(4,5))
  show "hmap_get hmap' k' = Inr (opt_some v', hmap')"
    if k': "0 \<le> hash_func hmap k'" and g: "hmap_get hmap k' = Inr (opt_some v', hmap)"
  proof -
    have k2': "0 \<le> hash_func hmap' k'" using assms(3) k' by simp
    from g obtain e where "e \<in> set (entries hmap)" "key_cmp hmap (key e) k'" "val e = v'"
      unfolding get_present_iff[OF 1 k'] by blast
    then show ?thesis
      unfolding get_present_iff[OF 2 k2'] by (auto simp: assms(4,5))
  qed
qed

subsection \<open>Remove of a key that is found\<close>

lemma ll_remove_at:
  assumes "chain_ok list" and "i < length (nodes list)"
  shows "ll_remove list i (if i = 0 then None else Some (i - 1))
           = list\<lparr>nodes := take i (nodes list) @ drop (Suc i) (nodes list),
                  length_ll := length_ll list - 1\<rparr>"
proof (cases "i = 0")
  case True
  from assms(2) obtain x xs where ns: "nodes list = x # xs" by (cases "nodes list") auto
  show ?thesis
  proof (cases xs)
    case Nil
    with ns True assms(1) show ?thesis
      by (simp add: ll_remove_def ll_popf_def chain_ok_def)
  next
    case (Cons y ys)
    with ns True show ?thesis
      by (simp add: ll_remove_def ll_popf_def)
  qed
next
  case False
  with assms(2) have ne: "nodes list \<noteq> []" and l2: "length (nodes list) \<noteq> 1" by auto
  show ?thesis
  proof (cases "i = length (nodes list) - 1")
    case True
    then have "take i (nodes list) @ drop (Suc i) (nodes list) = butlast (nodes list)"
      using assms(2) by (simp add: butlast_conv_take)
    with True False ne l2 show ?thesis
      by (simp add: ll_remove_def ll_popb_def)
  next
    case last: False
    with False ne show ?thesis
      by (simp add: ll_remove_def)
  qed
qed

lemma remove_found:
  assumes "bucket_pos hmap k = Inr pos" and "chain_ok (buckets hmap ! pos)"
    and "find_node (key_cmp hmap) k (nodes (buckets hmap ! pos)) = Some i"
  shows "hmap_remove hmap k
           = Inr (opt_some (val (nodes (buckets hmap ! pos) ! i)), remove_entry hmap pos i)"
proof -
  have "i < length (nodes (buckets hmap ! pos))" using find_node_Some[OF assms(3)] by simp
  from ll_remove_at[OF assms(2) this] show ?thesis
    using assms(1,3) by (simp add: hmap_remove_def Let_def remove_entry_def)
qed

lemma keys_unique_drop_one: "keys_unique cmp (xs @ y # ys) \<Longrightarrow> keys_unique cmp (xs @ ys)"
  by (simp add: keys_unique_snoc)

lemma remove_entry_ok:
  assumes "map_ok hmap" and "pos < length (buckets hmap)"
    and "i < length (nodes (buckets hmap ! pos))"
  shows "map_ok (remove_entry hmap pos i)"
    and "set (entries (remove_entry hmap pos i)) \<subseteq> set (entries hmap)"
proof -
  let ?m = "remove_entry hmap pos i"
  let ?b = "buckets hmap ! pos"
  let ?ns = "nodes ?b"
  let ?x = "?b\<lparr>nodes := take i ?ns @ drop (Suc i) ?ns, length_ll := length_ll ?b - 1\<rparr>"
  from assms(1) have arr: "array_ok hmap" and chn: "chains_ok hmap" and plc: "placed hmap"
    and str: "strategies_ok hmap" and siz: "size_hm hmap = chain_count_sum hmap"
    and unq: "keys_unique (key_cmp hmap) (entries hmap)"
    by (simp_all add: map_ok_def size_and_keys_inv_def)
  have bk: "buckets ?m = (buckets hmap)[pos := ?x]" by (simp add: remove_entry_def)
  have cb: "chain_ok ?b" using chn assms(2) by (simp add: chains_ok_def)
  have a': "array_ok ?m" using arr by (simp add: array_ok_def remove_entry_def)
  have c': "chains_ok ?m"
    using cb assms(3) by (intro chains_ok_update[OF chn _ bk]) (auto simp: chain_ok_def)
  have p': "placed ?m"
    by (intro placed_update[OF plc bk])
       (auto simp: remove_entry_def dest: in_set_takeD in_set_dropD)
  have "strategies_ok ?m = strategies_ok hmap" by (simp add: strategies_ok_def remove_entry_def)
  with str have st': "strategies_ok ?m" by blast
  have s': "size_hm ?m = chain_count_sum ?m"
    using chain_count_sum_update[OF assms(2) bk] siz by (simp add: remove_entry_def)
  let ?A = "concat (map nodes (take pos (buckets hmap)))"
  let ?B = "concat (map nodes (drop (Suc pos) (buckets hmap)))"
  have "entries hmap = ?A @ ?ns @ ?B"
    unfolding entries_def by (rule concat_nodes_nth[OF assms(2)])
  also have "?ns = take i ?ns @ ?ns ! i # drop (Suc i) ?ns"
    using assms(3) by (rule id_take_nth_drop)
  finally have e0: "entries hmap = (?A @ take i ?ns) @ ?ns ! i # (drop (Suc i) ?ns @ ?B)"
    by simp
  have e1: "entries ?m = (?A @ take i ?ns) @ (drop (Suc i) ?ns @ ?B)"
    unfolding entries_def bk by (simp add: concat_nodes_update[OF assms(2)])
  have "keys_unique (key_cmp hmap) ((?A @ take i ?ns) @ ?ns ! i # (drop (Suc i) ?ns @ ?B))"
    using unq unfolding e0 .
  then have "keys_unique (key_cmp hmap) ((?A @ take i ?ns) @ (drop (Suc i) ?ns @ ?B))"
    by (rule keys_unique_drop_one)
  then have u': "keys_unique (key_cmp ?m) (entries ?m)"
    unfolding e1 by (simp add: remove_entry_def)
  show "map_ok ?m"
    using a' c' p' st' s' u' by (simp add: map_ok_def size_and_keys_inv_def)
  show "set (entries ?m) \<subseteq> set (entries hmap)"
    unfolding e1 by (subst e0) auto
qed

subsection \<open>Put of a key that is found\<close>

lemma keys_unique_same_keys:
  "map key es' = map key es \<Longrightarrow> keys_unique cmp es' = keys_unique cmp es"
proof (induction es arbitrary: es')
  case Nil
  then show ?case by simp
next
  case (Cons e es)
  then obtain e' es'' where es': "es' = e' # es''" and k: "key e' = key e"
    and m: "map key es'' = map key es"
    by (cases es') auto
  have "list_all (\<lambda>x. \<not> cmp (key e) (key x) \<and> \<not> cmp (key x) (key e)) es''
          = list_all (\<lambda>x. \<not> cmp (key e) x \<and> \<not> cmp x (key e)) (map key es'')"
    by (simp add: list_all_iff)
  also have "\<dots> = list_all (\<lambda>x. \<not> cmp (key e) (key x) \<and> \<not> cmp (key x) (key e)) es"
    unfolding m by (simp add: list_all_iff)
  finally show ?case using Cons.IH[OF m] by (simp add: es' k)
qed

lemma overwrite_entry_ok:
  assumes "map_ok hmap" and "pos < length (buckets hmap)"
    and "i < length (nodes (buckets hmap ! pos))"
  shows "map_ok (overwrite_entry hmap pos i v)"
proof -
  let ?m = "overwrite_entry hmap pos i v"
  let ?b = "buckets hmap ! pos"
  let ?ns = "nodes ?b"
  let ?x = "?b\<lparr>nodes := ?ns[i := (?ns ! i)\<lparr>val := v\<rparr>]\<rparr>"
  from assms(1) have arr: "array_ok hmap" and chn: "chains_ok hmap" and plc: "placed hmap"
    and str: "strategies_ok hmap" and siz: "size_hm hmap = chain_count_sum hmap"
    and unq: "keys_unique (key_cmp hmap) (entries hmap)"
    by (simp_all add: map_ok_def size_and_keys_inv_def)
  have bk: "buckets ?m = (buckets hmap)[pos := ?x]" by (simp add: overwrite_entry_def)
  have cb: "chain_ok ?b" using chn assms(2) by (simp add: chains_ok_def)
  have a': "array_ok ?m" using arr by (simp add: array_ok_def overwrite_entry_def)
  have c': "chains_ok ?m"
    using cb by (intro chains_ok_update[OF chn _ bk]) (simp add: chain_ok_def)
  have old: "0 \<le> hash_func hmap (key (?ns ! i))
             \<and> nat (hash_func hmap (key (?ns ! i)) mod capacity hmap) = pos"
    using plc assms(2,3) by (simp add: placed_def)
  have p': "placed ?m"
  proof (intro placed_update[OF plc bk] ballI)
    fix e
    assume "e \<in> set (nodes ?x)"
    then have "e \<in> insert ((?ns ! i)\<lparr>val := v\<rparr>) (set ?ns)"
      using set_update_subset_insert[of ?ns i] by auto
    with old show "e \<in> set ?ns
        \<or> (0 \<le> hash_func hmap (key e) \<and> nat (hash_func hmap (key e) mod capacity hmap) = pos)"
      by auto
  qed (simp_all add: overwrite_entry_def)
  have "strategies_ok ?m = strategies_ok hmap" by (simp add: strategies_ok_def overwrite_entry_def)
  with str have st': "strategies_ok ?m" by blast
  have s': "size_hm ?m = chain_count_sum ?m"
    using chain_count_sum_update[OF assms(2) bk] siz by (simp add: overwrite_entry_def)
  let ?A = "concat (map nodes (take pos (buckets hmap)))"
  let ?B = "concat (map nodes (drop (Suc pos) (buckets hmap)))"
  have e0: "entries hmap = ?A @ ?ns @ ?B"
    unfolding entries_def by (rule concat_nodes_nth[OF assms(2)])
  have e1: "entries ?m = ?A @ ?ns[i := (?ns ! i)\<lparr>val := v\<rparr>] @ ?B"
    unfolding entries_def bk by (simp add: concat_nodes_update[OF assms(2)])
  have "map key (entries ?m) = map key (entries hmap)"
    unfolding e0 e1 by (simp add: map_key_overwrite)
  then have u': "keys_unique (key_cmp ?m) (entries ?m)"
    using unq keys_unique_same_keys[of "entries ?m" "entries hmap" "key_cmp hmap"]
    by (simp add: overwrite_entry_def)
  show ?thesis
    using a' c' p' st' s' u' by (simp add: map_ok_def size_and_keys_inv_def)
qed

subsection \<open>The invariant along the operations\<close>

text \<open>
  Put keeps \<open>map_ok\<close>, whatever status it returns, when the nodes that a resize
  re-inserts are allocated (the allocations after the first two of the call); remove
  keeps it; the constructor establishes it for a capacity of at least 1.
\<close>

lemma granted_after_two:
  assumes "granted (drop 2 h)" and "malloc h = (a, h')" and "malloc h' = (True, h'')"
  shows "granted h'"
proof (cases h)
  case Nil
  with assms(2) show ?thesis by (auto simp: granted_def)
next
  case (Cons x xs)
  with assms(2) have h': "h' = xs" by simp
  show ?thesis
  proof (cases xs)
    case Nil
    with h' show ?thesis by (simp add: granted_def)
  next
    case (Cons y ys)
    with assms(1,3) h' \<open>h = x # xs\<close> show ?thesis by (simp add: granted_def)
  qed
qed

lemma put_keeps_invariant:
  assumes "map_ok hmap" and "0 \<le> hash_func hmap k" and "2 * capacity hmap \<le> INT_MAX"
    and "granted (drop 2 h)"
  shows "\<exists>status hmap' h'. hmap_put h hmap k v = Inr (status, hmap', h') \<and> map_ok hmap'"
proof -
  from assms(1) have arr: "array_ok hmap" and chn: "chains_ok hmap"
    by (simp_all add: map_ok_def)
  let ?pos = "nat (hash_func hmap k mod capacity hmap)"
  let ?b = "buckets hmap ! ?pos"
  have pos: "bucket_pos hmap k = Inr ?pos" and plen: "?pos < length (buckets hmap)"
    using bucket_pos_nonneg[OF arr assms(2)] by simp_all
  have cb: "chain_ok ?b" using chn plen by (simp add: chains_ok_def)
  show ?thesis
  proof (cases "find_node (key_cmp hmap) k (nodes ?b)")
    case (Some i)
    have ilen: "i < length (nodes ?b)" using find_node_Some[OF Some] by simp
    with cb have "length_ll ?b \<noteq> 0" by (auto simp: chain_ok_def)
    from put_update_path[OF pos Some this]
    have "hmap_put h hmap k v = Inr (STATUS_OK, overwrite_entry hmap ?pos i v, h)"
      by (simp add: overwrite_entry_def)
    with overwrite_entry_ok[OF assms(1) plen ilen] show ?thesis by (intro exI conjI)
  next
    case None
    obtain a h' where m1: "malloc h = (a, h')" by (cases "malloc h")
    let ?m = "insert_entry hmap ?pos k v"
    have ok: "map_ok ?m" by (rule insert_entry_ok(1)[OF assms(1) pos assms(2) None])
    show ?thesis
    proof (cases a)
      case False
      with m1 have "malloc h = (False, h')" by simp
      then have "hmap_put h hmap k v = Inr (ERROR_OUT_OF_MEM, hmap, h')"
        by (rule put_node_alloc_failure[OF pos cb None])
      with assms(1) show ?thesis by (intro exI conjI)
    next
      case True
      with m1 have "malloc h = (True, h')" by simp
      then have put: "hmap_put h hmap k v =
           (if size_hm hmap + 1 = capacity hmap + 1 then resize h' ?m
            else Inr (STATUS_OK, ?m, h'))"
        by (rule put_insert[OF pos cb None])
      show ?thesis
      proof (cases "size_hm hmap + 1 = capacity hmap + 1")
        case False
        with put have "hmap_put h hmap k v = Inr (STATUS_OK, ?m, h')" by simp
        with ok show ?thesis by (intro exI conjI)
      next
        case resize: True
        with put have put': "hmap_put h hmap k v = resize h' ?m" by simp
        obtain a2 h'' where m2: "malloc h' = (a2, h'')" by (cases "malloc h'")
        show ?thesis
        proof (cases a2)
          case False
          with m2 have "resize h' ?m = Inr (ERROR_OUT_OF_MEM, ?m, h'')"
            by (simp add: resize_def)
          with put' have "hmap_put h hmap k v = Inr (ERROR_OUT_OF_MEM, ?m, h'')" by simp
          with ok show ?thesis by (intro exI conjI)
        next
          case True
          with m2 have "malloc h' = (True, h'')" by simp
          then have g: "granted h'" by (rule granted_after_two[OF assms(4) m1])
          have "2 * capacity ?m \<le> INT_MAX" using assms(3) by (simp add: insert_entry_def)
          from resize_granted_ok[OF g ok this] obtain m' h3
            where "resize h' ?m = Inr (STATUS_OK, m', h3)" and ok': "map_ok m'"
            by blast
          with put' have "hmap_put h hmap k v = Inr (STATUS_OK, m', h3)" by simp
          with ok' show ?thesis by (intro exI conjI)
        qed
      qed
    qed
  qed
qed

lemma remove_keeps_invariant:
  assumes "map_ok hmap" and "hmap_remove hmap k = Inr (result, hmap')"
  shows "map_ok hmap'"
proof -
  from assms(2) obtain pos where pos: "bucket_pos hmap k = Inr pos"
    by (cases "bucket_pos hmap k") (simp_all add: hmap_remove_def)
  have plen: "pos < length (buckets hmap)" using pos by (rule bucket_pos_bound)
  from assms(1) have "chains_ok hmap" by (simp add: map_ok_def)
  with plen have cb: "chain_ok (buckets hmap ! pos)" by (simp add: chains_ok_def)
  show ?thesis
  proof (cases "find_node (key_cmp hmap) k (nodes (buckets hmap ! pos))")
    case None
    then have "hmap_remove hmap k = Inr (opt_none, hmap)"
      by (simp add: hmap_remove_def pos)
    with assms(2) have "hmap' = hmap" by simp
    with assms(1) show ?thesis by simp
  next
    case (Some i)
    have ilen: "i < length (nodes (buckets hmap ! pos))" using find_node_Some[OF Some] by simp
    from remove_found[OF pos cb Some] assms(2) have "hmap' = remove_entry hmap pos i" by simp
    with remove_entry_ok(1)[OF assms(1) plen ilen] show ?thesis by simp
  qed
qed

lemma new_map_ok:
  assumes "hmap_new_cap h hf cmp cap = Inr (opt_some hmap, h')" and "1 \<le> cap"
    and "\<forall>a. cmp a a" and "\<forall>a b. cmp a b = cmp b a"
    and "\<forall>a b c. cmp a b \<longrightarrow> cmp b c \<longrightarrow> cmp a c"
    and "\<forall>a b. cmp a b \<longrightarrow> hf a = hf b"
  shows "map_ok hmap"
proof -
  from assms(1) have m: "hmap = \<lparr>buckets = replicate (nat cap) ll_new, size_hm = 0,
                              capacity = cap, hash_func = hf, key_cmp = cmp\<rparr>"
    by (auto simp: hmap_new_cap_def opt_some_def OPT_NONE_ERR_def opt_none_def
          split: prod.splits bool.splits if_splits)
  have "array_ok hmap" using assms(2) by (simp add: m array_ok_def)
  moreover have "chains_ok hmap" by (simp add: m chains_ok_def chain_ok_def ll_new_def)
  moreover have "placed hmap" by (simp add: m placed_def ll_new_def)
  moreover have "strategies_ok hmap"
    unfolding strategies_ok_def using assms(3-6) by (simp only: m HashMap.simps) blast
  moreover have "entries hmap = []" by (simp add: m entries_def ll_new_def)
  moreover have "chain_count_sum hmap = 0"
    by (simp add: m chain_count_sum_def ll_new_def sum_list_replicate)
  ultimately show ?thesis by (simp add: map_ok_def size_and_keys_inv_def m)
qed

lemma map_ok_size_and_keys: "map_ok hmap \<Longrightarrow> size_and_keys_inv hmap"
  by (simp add: map_ok_def)

text \<open>
  Put of a new key with every allocation granted: the status is \<^verbatim>\<open>STATUS_OK\<close>, the
  capacity doubles exactly when the size has become \<open>capacity + 1\<close>, the new key is
  found with its value, and every key that was found before is found with the value
  it had.
\<close>

lemma put_new_key_keeps_lookups:
  assumes "map_ok hmap" and "0 \<le> hash_func hmap k" and "key_absent hmap k"
    and "granted h" and "2 * capacity hmap \<le> INT_MAX"
  shows "\<exists>hmap' h'. hmap_put h hmap k v = Inr (STATUS_OK, hmap', h') \<and> map_ok hmap'
           \<and> size_hm hmap' = size_hm hmap + 1
           \<and> capacity hmap'
               = (if size_hm hmap + 1 = capacity hmap + 1 then 2 * capacity hmap else capacity hmap)
           \<and> hmap_get hmap' k = Inr (opt_some v, hmap')
           \<and> (\<forall>k' v'. 0 \<le> hash_func hmap k' \<longrightarrow> hmap_get hmap k' = Inr (opt_some v', hmap)
                  \<longrightarrow> hmap_get hmap' k' = Inr (opt_some v', hmap'))"
proof -
  from put_new_key_granted[OF assms, of v] obtain hmap' h'
    where put: "hmap_put h hmap k v = Inr (STATUS_OK, hmap', h')" and ok: "map_ok hmap'"
      and sz: "size_hm hmap' = size_hm hmap + 1"
      and cap: "capacity hmap'
               = (if size_hm hmap + 1 = capacity hmap + 1 then 2 * capacity hmap else capacity hmap)"
      and hf: "hash_func hmap' = hash_func hmap" and cmp: "key_cmp hmap' = key_cmp hmap"
      and es: "set (entries hmap') = insert \<lparr>key = k, val = v\<rparr> (set (entries hmap))"
    by blast
  note lk = put_new_key_lookups[OF assms(1) ok hf cmp es assms(2)]
  from lk(1) have g: "hmap_get hmap' k = Inr (opt_some v, hmap')" .
  have old: "\<forall>k' v'. 0 \<le> hash_func hmap k' \<longrightarrow> hmap_get hmap k' = Inr (opt_some v', hmap)
                  \<longrightarrow> hmap_get hmap' k' = Inr (opt_some v', hmap')"
    using lk(2) by blast
  from put ok sz cap g old show ?thesis by (intro exI conjI)
qed

text \<open>The second sample map satisfies the invariant, and a granted put resizes it.\<close>

lemma map_two_ok: "map_ok map_two"
  by (auto simp: map_ok_def array_ok_def chains_ok_def chain_ok_def placed_def strategies_ok_def
        size_and_keys_inv_def chain_count_sum_def entries_def map_two_def int_cmp_def
        itod_hash_func_def nth_Cons' less_Suc_eq)

lemma map_two_put_granted:
  "\<exists>hmap'. hmap_put [] map_two 2 12 = Inr (STATUS_OK, hmap', []) \<and> capacity hmap' = 4
     \<and> hmap_get hmap' 0 = Inr (opt_some 10, hmap')
     \<and> hmap_get hmap' 1 = Inr (opt_some 11, hmap')
     \<and> hmap_get hmap' 2 = Inr (opt_some 12, hmap')"
  by (simp add: eval_defs map_two_def)

section \<open>Allocation failure while a resize moves the entries\<close>

text \<open>
  The allocations whose failure the source checks: a node in \<^verbatim>\<open>_ll_pushb\<close> and
  \<^verbatim>\<open>_ll_pushf\<close> (the chain is left as it was), the bucket array in the constructor,
  the bucket array in \<^verbatim>\<open>_resize\<close> (\<open>resize_alloc_failure\<close>), and the node in put
  (\<open>put_node_alloc_failure\<close>: the map is left as it was).
\<close>

lemma ll_pushb_alloc_failure: "ll_pushb (False # h) list x = (ERROR_OUT_OF_MEM, list, h)"
  by (simp add: ll_pushb_def)

lemma ll_pushf_alloc_failure: "ll_pushf (False # h) list x = (ERROR_OUT_OF_MEM, list, h)"
  by (simp add: ll_pushf_def)

lemma new_cap_alloc_failure:
  "hmap_new_cap (False # h) hf cmp cap = Inr (OPT_NONE_ERR ERROR_OUT_OF_MEM, h)"
  by (simp add: hmap_new_cap_def)

text \<open>
  C4. \<^verbatim>\<open>_resize\<close> does not read the status of the \<^verbatim>\<open>_ll_pushf\<close> calls that re-insert
  the entries. On a map of capacity 1 that holds the keys 0 and 1, with the new
  bucket array allocated and the node for key 0 refused, \<^verbatim>\<open>_ll_pushf\<close> returns
  \<^verbatim>\<open>ERROR_OUT_OF_MEM\<close> and leaves its chain as it was, but \<^verbatim>\<open>_resize\<close> goes on and
  returns \<^verbatim>\<open>STATUS_OK\<close> with the entry of key 0 in no bucket; the put that triggered
  this resize returns \<^verbatim>\<open>STATUS_OK\<close> too.
\<close>

theorem resize_ignores_failed_reinsertion:
  "resize [True, False]
     \<lparr>buckets = [\<lparr>nodes = [\<lparr>key = 0, val = 10\<rparr>, \<lparr>key = 1, val = 11\<rparr>], length_ll = 2\<rparr>],
      size_hm = 2, capacity = 1, hash_func = itod_hash_func, key_cmp = int_cmp\<rparr>
   = Inr (STATUS_OK,
          \<lparr>buckets = [\<lparr>nodes = [], length_ll = 0\<rparr>,
                      \<lparr>nodes = [\<lparr>key = 1, val = 11\<rparr>], length_ll = 1\<rparr>],
           size_hm = 2, capacity = 2, hash_func = itod_hash_func, key_cmp = int_cmp\<rparr>, [])
   \<and> hmap_put [True, True, False] map_one 1 11
   = Inr (STATUS_OK,
          \<lparr>buckets = [\<lparr>nodes = [], length_ll = 0\<rparr>,
                      \<lparr>nodes = [\<lparr>key = 1, val = 11\<rparr>], length_ll = 1\<rparr>],
           size_hm = 2, capacity = 2, hash_func = itod_hash_func, key_cmp = int_cmp\<rparr>, [])
   \<and> STATUS_OK \<noteq> ERROR_OUT_OF_MEM
   \<and> ll_pushf [False] \<lparr>nodes = [], length_ll = 0\<rparr> \<lparr>key = 0 :: int, val = 10 :: int\<rparr>
       = (ERROR_OUT_OF_MEM, \<lparr>nodes = [], length_ll = 0\<rparr>, [])"
  by (simp add: eval_defs map_one_def)

text \<open>
  C1. On the map of capacity 2 that holds the keys 0 and 1, put of the new key 2
  brings the size to \<open>capacity + 1\<close> and resizes; with the node that re-inserts key 0
  refused, put returns \<^verbatim>\<open>STATUS_OK\<close> and the capacity is 4, twice the old one, but
  get of key 0, which returned 10 before, now returns the empty option. (With every
  node allocated all keys are kept: \<open>put_new_key_keeps_lookups\<close>.)
\<close>

theorem resize_loses_inserted_key:
  "hmap_get map_two 0 = Inr (opt_some 10, map_two)
   \<and> hmap_put [True, True, False] map_two 2 12
     = Inr (STATUS_OK,
            \<lparr>buckets = [\<lparr>nodes = [], length_ll = 0\<rparr>,
                        \<lparr>nodes = [\<lparr>key = 1, val = 11\<rparr>], length_ll = 1\<rparr>,
                        \<lparr>nodes = [\<lparr>key = 2, val = 12\<rparr>], length_ll = 1\<rparr>,
                        \<lparr>nodes = [], length_ll = 0\<rparr>],
             size_hm = 3, capacity = 4, hash_func = itod_hash_func, key_cmp = int_cmp\<rparr>, [])
   \<and> hmap_get
        \<lparr>buckets = [\<lparr>nodes = [], length_ll = 0\<rparr>,
                    \<lparr>nodes = [\<lparr>key = 1, val = 11\<rparr>], length_ll = 1\<rparr>,
                    \<lparr>nodes = [\<lparr>key = 2, val = 12\<rparr>], length_ll = 1\<rparr>,
                    \<lparr>nodes = [], length_ll = 0\<rparr>],
         size_hm = 3, capacity = 4, hash_func = itod_hash_func, key_cmp = int_cmp\<rparr> 0
     = Inr (opt_none,
        \<lparr>buckets = [\<lparr>nodes = [], length_ll = 0\<rparr>,
                    \<lparr>nodes = [\<lparr>key = 1, val = 11\<rparr>], length_ll = 1\<rparr>,
                    \<lparr>nodes = [\<lparr>key = 2, val = 12\<rparr>], length_ll = 1\<rparr>,
                    \<lparr>nodes = [], length_ll = 0\<rparr>],
         size_hm = 3, capacity = 4, hash_func = itod_hash_func, key_cmp = int_cmp\<rparr>)"
  by (simp add: eval_defs map_two_def)

text \<open>
  C6. The size and key invariant holds of the map of capacity 1 with the key 0. A put
  of the new key 3 resizes it; with the node that re-inserts key 3 refused, put
  returns \<^verbatim>\<open>STATUS_OK\<close> and leaves a map of size 2 whose chain counts sum to 1: the
  invariant does not hold of it. (With the re-inserted nodes allocated the invariant
  is kept: \<open>put_keeps_invariant\<close>.)
\<close>

theorem put_breaks_size_invariant:
  "size_and_keys_inv map_one
   \<and> hmap_put [True, True, True, False] map_one 3 13
     = Inr (STATUS_OK,
            \<lparr>buckets = [\<lparr>nodes = [\<lparr>key = 0, val = 10\<rparr>], length_ll = 1\<rparr>,
                        \<lparr>nodes = [], length_ll = 0\<rparr>],
             size_hm = 2, capacity = 2, hash_func = itod_hash_func, key_cmp = int_cmp\<rparr>, [])
   \<and> chain_count_sum
        \<lparr>buckets = [\<lparr>nodes = [\<lparr>key = 0 :: int, val = 10 :: int\<rparr>], length_ll = 1\<rparr>,
                    \<lparr>nodes = [], length_ll = 0\<rparr>],
         size_hm = 2, capacity = 2, hash_func = itod_hash_func, key_cmp = int_cmp\<rparr> = 1
   \<and> \<not> size_and_keys_inv
        \<lparr>buckets = [\<lparr>nodes = [\<lparr>key = 0 :: int, val = 10 :: int\<rparr>], length_ll = 1\<rparr>,
                    \<lparr>nodes = [], length_ll = 0\<rparr>],
         size_hm = 2, capacity = 2, hash_func = itod_hash_func, key_cmp = int_cmp\<rparr>"
  by (simp add: eval_defs map_one_def size_and_keys_inv_def chain_count_sum_def entries_def)

end
